theory Spec2Isabelle
  imports Complex_Main "HOL-Library.AList" "HOL-Library.Sublist" "HOL-Library.Char_ord" "HOL-Library.List_Lexorder"
begin

section \<open>The Kochi route planner: data model\<close>

text \<open>
  The development embeds \<^verbatim>\<open>src/dijkstra.py\<close>, class
  \<^verbatim>\<open>LocationToLocationOptimizer\<close>. Python floats are modelled as real
  numbers (no rounding error, no overflow); the one special value the code creates,
  \<^verbatim>\<open>float('inf')\<close>, is the constructor \<open>PInf\<close> of \<open>pyfloat\<close>.
  A dictionary indexed with a key it does not hold raises \<^verbatim>\<open>KeyError\<close>:
  every such read is a branch of the model.
\<close>

datatype exn = KeyError string

datatype pyfloat = Fin real | PInf

text \<open>A location record of \<^verbatim>\<open>self.locations\<close>; the key \<^verbatim>\<open>'type'\<close> is \<open>loc_type\<close>.\<close>

record location =
  lat :: real
  lon :: real
  loc_type :: string
  zone :: string

text \<open>An edge dictionary, as \<^verbatim>\<open>_add_edge\<close> builds it.\<close>

record edge =
  destination :: string
  mode :: string
  time :: real
  distance :: real
  cost :: real

text \<open>
  The fields of the optimizer object. Python dictionaries keep insertion order and the
  builder iterates over them, so they are association lists; \<^verbatim>\<open>self.graph\<close> is a
  \<^verbatim>\<open>defaultdict(list)\<close>.
\<close>

record optimizer =
  graph :: "(string \<times> edge list) list"
  locations :: "(string \<times> location) list"
  metro_stations :: "(string \<times> real \<times> real) list"

text \<open>The local dictionaries, the heap and the closed set of one \<^verbatim>\<open>_dijkstra\<close> call.\<close>

record search_state =
  distances :: "string \<rightharpoonup> pyfloat"
  costs :: "string \<rightharpoonup> pyfloat"
  times :: "string \<rightharpoonup> pyfloat"
  distances_km :: "string \<rightharpoonup> pyfloat"
  transfers :: "string \<rightharpoonup> int"
  previous :: "string \<rightharpoonup> string option"
  edge_info :: "string \<rightharpoonup> edge option"
  pq :: "(real \<times> string) list"
  visited :: "string set"

text \<open>One dictionary of a detailed path; \<^verbatim>\<open>'type'\<close> and \<^verbatim>\<open>'mode'\<close> are
  \<open>step_type\<close> and \<open>step_mode\<close>.\<close>

record step =
  location :: string
  step_type :: string
  step_mode :: string
  segment_time :: real
  segment_cost :: real
  segment_distance :: real

record route =
  strategy :: string
  total_cost :: pyfloat
  total_time :: pyfloat
  total_distance :: pyfloat
  num_segments :: int
  path :: "step list"

text \<open>An element of the list \<^verbatim>\<open>find_optimized_routes\<close> returns: a dictionary with the
  single key \<^verbatim>\<open>"error"\<close>, or a route dictionary.\<close>

datatype entry = Error string | Route route

record weights =
  name :: string
  cost_weight :: real
  time_weight :: real
  convenience_weight :: real

section \<open>Exceptions and float arithmetic\<close>

definition bnd :: "exn + 'a \<Rightarrow> ('a \<Rightarrow> exn + 'b) \<Rightarrow> exn + 'b" where
  "bnd x f = (case x of Inl e \<Rightarrow> Inl e | Inr v \<Rightarrow> f v)"

definition lookup :: "(string \<rightharpoonup> 'v) \<Rightarrow> string \<Rightarrow> exn + 'v" where
  "lookup m k = (case m k of None \<Rightarrow> Inl (KeyError k) | Some v \<Rightarrow> Inr v)"

text \<open>\<^verbatim>\<open>x + y\<close> for an accumulator \<open>x\<close> and a finite \<open>y\<close>.\<close>

fun fadd :: "pyfloat \<Rightarrow> real \<Rightarrow> pyfloat" where
  "fadd (Fin a) y = Fin (a + y)"
| "fadd PInf y = PInf"

text \<open>\<^verbatim>\<open>x / k if x > 0 else 0\<close>.\<close>

fun normalize :: "pyfloat \<Rightarrow> real \<Rightarrow> pyfloat" where
  "normalize (Fin a) k = Fin (if a > 0 then a / k else 0)"
| "normalize PInf k = PInf"

text \<open>\<^verbatim>\<open><\<close> on floats.\<close>

fun flt :: "pyfloat \<Rightarrow> pyfloat \<Rightarrow> bool" where
  "flt (Fin a) (Fin b) = (a < b)"
| "flt (Fin a) PInf = True"
| "flt PInf y = False"

text \<open>
  The composite score. With an infinite accumulator the IEEE value of the expression is
  \<^verbatim>\<open>inf\<close> (or \<^verbatim>\<open>nan\<close> when a weight is zero) for the non-negative weights the
  program uses, and both fail the test \<^verbatim>\<open>composite < distances[neighbor]\<close>: the model
  gives \<open>PInf\<close> there.
\<close>

fun composite_score :: "real \<Rightarrow> real \<Rightarrow> real \<Rightarrow> pyfloat \<Rightarrow> pyfloat \<Rightarrow> real \<Rightarrow> pyfloat" where
  "composite_score cw tw conv (Fin norm_cost) (Fin norm_time) penalties =
     Fin (cw * norm_cost + tw * norm_time + conv * penalties)"
| "composite_score cw tw conv norm_cost norm_time penalties = PInf"

text \<open>Python's \<^verbatim>\<open>round(x, n)\<close>: to the nearest multiple of \<open>10\<^sup>-\<^sup>n\<close>, a tie to the even one.\<close>

definition round_half_even :: "real \<Rightarrow> int" where
  "round_half_even x =
     (let f = \<lfloor>x\<rfloor>; r = x - of_int f
      in if r < 1 / 2 then f else if 1 / 2 < r then f + 1 else if even f then f else f + 1)"

definition py_round :: "real \<Rightarrow> nat \<Rightarrow> real" where
  "py_round x n = of_int (round_half_even (x * 10 ^ n)) / 10 ^ n"

fun fround :: "pyfloat \<Rightarrow> nat \<Rightarrow> pyfloat" where
  "fround (Fin a) n = Fin (py_round a n)"
| "fround PInf n = PInf"

section \<open>The search\<close>

subsection \<open>The heap\<close>

text \<open>
  \<^verbatim>\<open>heapq\<close> keeps tuples \<^verbatim>\<open>(composite, name)\<close>; \<^verbatim>\<open>heappop\<close> removes a least
  tuple, tuples being compared first by score and then by name (Python compares strings by
  code point, as the order on \<open>string\<close> does). The list is the content of the heap; its
  layout in the array is not observable.
\<close>

definition tuple_le :: "real \<times> string \<Rightarrow> real \<times> string \<Rightarrow> bool" where
  "tuple_le x y = (fst x < fst y \<or> (fst x = fst y \<and> snd x \<le> snd y))"

fun heap_min :: "real \<times> string \<Rightarrow> (real \<times> string) list \<Rightarrow> real \<times> string" where
  "heap_min x [] = x"
| "heap_min x (y # ys) = heap_min (if tuple_le x y then x else y) ys"

subsection \<open>Relaxing one edge\<close>

text \<open>
  Whether the mode changes: \<^verbatim>\<open>prev_mode\<close> is the mode of \<^verbatim>\<open>edge_info[current]\<close>, or
  \<^verbatim>\<open>None\<close> when there is none, and the test is \<^verbatim>\<open>prev_mode and prev_mode != edge['mode']\<close>
  (an empty string is false in Python).
\<close>

definition mode_changed :: "edge option \<Rightarrow> edge \<Rightarrow> bool" where
  "mode_changed ei e =
     (let prev_mode = (case ei of None \<Rightarrow> None | Some pe \<Rightarrow> Some (mode pe))
      in case prev_mode of None \<Rightarrow> False | Some m \<Rightarrow> m \<noteq> [] \<and> m \<noteq> mode e)"

text \<open>Lines 336 to 356: the penalties, the normalised values and the composite score.\<close>

definition composite :: "real \<Rightarrow> real \<Rightarrow> real \<Rightarrow> pyfloat \<Rightarrow> pyfloat \<Rightarrow> int \<Rightarrow> bool \<Rightarrow> edge \<Rightarrow> pyfloat" where
  "composite cw tw conv new_cost new_time new_transfers changed e =
     (let mode_change_penalty = (if changed then 0.3 else 0);
          walk_penalty = (if mode e = ''walk'' \<and> distance e > 0.5 then distance e * 0.2 else 0);
          norm_cost = normalize new_cost 200;
          norm_time = normalize new_time 120;
          norm_transfers = (if new_transfers > 0 then real_of_int new_transfers / 5 else 0)
      in composite_score cw tw conv norm_cost norm_time
           (norm_transfers + mode_change_penalty + walk_penalty))"

text \<open>Lines 359 to 366: the seven assignments and the push.\<close>

definition record_best ::
  "search_state \<Rightarrow> string \<Rightarrow> real \<Rightarrow> pyfloat \<Rightarrow> pyfloat \<Rightarrow> pyfloat \<Rightarrow> int \<Rightarrow> string \<Rightarrow> edge \<Rightarrow> search_state" where
  "record_best s neighbor sc new_cost new_time new_distance new_transfers current e =
     s\<lparr>distances := (distances s)(neighbor \<mapsto> Fin sc),
       costs := (costs s)(neighbor \<mapsto> new_cost),
       times := (times s)(neighbor \<mapsto> new_time),
       distances_km := (distances_km s)(neighbor \<mapsto> new_distance),
       transfers := (transfers s)(neighbor \<mapsto> new_transfers),
       previous := (previous s)(neighbor \<mapsto> Some current),
       edge_info := (edge_info s)(neighbor \<mapsto> Some e),
       pq := pq s @ [(sc, neighbor)]\<rparr>"

text \<open>The body of \<^verbatim>\<open>for edge in self.graph[current]\<close> (lines 318 to 366).\<close>

definition relax :: "real \<Rightarrow> real \<Rightarrow> real \<Rightarrow> string \<Rightarrow> edge \<Rightarrow> search_state \<Rightarrow> exn + search_state" where
  "relax cw tw conv current e s =
     (let neighbor = destination e in
      if neighbor \<in> visited s then Inr s
      else
        bnd (lookup (costs s) current) (\<lambda>c.
        bnd (lookup (times s) current) (\<lambda>t.
        bnd (lookup (distances_km s) current) (\<lambda>d.
        bnd (lookup (transfers s) current) (\<lambda>tr.
        bnd (lookup (edge_info s) current) (\<lambda>ei.
          let new_cost = fadd c (cost e);
              new_time = fadd t (time e);
              new_distance = fadd d (distance e);
              changed = mode_changed ei e;
              new_transfers = (if changed then tr + 1 else tr);
              score = composite cw tw conv new_cost new_time new_transfers changed e
          in bnd (lookup (distances s) neighbor) (\<lambda>dn.
               case score of
                 PInf \<Rightarrow> Inr s
               | Fin sc \<Rightarrow>
                   if flt (Fin sc) dn
                   then Inr (record_best s neighbor sc new_cost new_time new_distance
                               new_transfers current e)
                   else Inr s)))))))"

fun relax_edges :: "real \<Rightarrow> real \<Rightarrow> real \<Rightarrow> string \<Rightarrow> edge list \<Rightarrow> search_state \<Rightarrow> exn + search_state" where
  "relax_edges cw tw conv current [] s = Inr s"
| "relax_edges cw tw conv current (e # es) s =
     (case relax cw tw conv current e s of
        Inl x \<Rightarrow> Inl x
      | Inr s' \<Rightarrow> relax_edges cw tw conv current es s')"

subsection \<open>The main loop\<close>

text \<open>
  \<^verbatim>\<open>while pq\<close>: pop the least tuple, skip a location already closed, close it, stop
  at the destination, skip a location without outgoing edges, else relax its edges in the
  order of its adjacency list. The loop ends because every round either shortens the heap
  or closes one more of the finitely many locations that can ever enter the heap.
\<close>

definition dests :: "optimizer \<Rightarrow> string set" where
  "dests self = destination ` (\<Union>(k, es) \<in> set (graph self). set es)"

lemma finite_dests: "finite (dests self)"
  by (auto simp: dests_def)

lemma heap_min_in: "heap_min x xs \<in> set (x # xs)"
  by (induction xs arbitrary: x) auto

lemma relax_cases:
  assumes "relax cw tw conv cur e s = Inr s'"
  obtains (same) "s' = s"
  | (best) c t d tr ei dn sc where
      "destination e \<notin> visited s" "costs s cur = Some c" "times s cur = Some t"
      "distances_km s cur = Some d" "transfers s cur = Some tr" "edge_info s cur = Some ei"
      "distances s (destination e) = Some dn"
      "composite cw tw conv (fadd c (cost e)) (fadd t (time e))
         (if mode_changed ei e then tr + 1 else tr) (mode_changed ei e) e = Fin sc"
      "flt (Fin sc) dn"
      "s' = record_best s (destination e) sc (fadd c (cost e)) (fadd t (time e))
              (fadd d (distance e)) (if mode_changed ei e then tr + 1 else tr) cur e"
proof (cases "destination e \<in> visited s")
  case True
  with assms same show ?thesis by (auto simp: relax_def)
next
  case False
  from assms False obtain c where c: "costs s cur = Some c"
    by (cases "costs s cur") (auto simp: relax_def bnd_def lookup_def)
  from assms False c obtain t where t: "times s cur = Some t"
    by (cases "times s cur") (auto simp: relax_def bnd_def lookup_def)
  from assms False c t obtain d where d: "distances_km s cur = Some d"
    by (cases "distances_km s cur") (auto simp: relax_def bnd_def lookup_def)
  from assms False c t d obtain tr where tr: "transfers s cur = Some tr"
    by (cases "transfers s cur") (auto simp: relax_def bnd_def lookup_def)
  from assms False c t d tr obtain ei where ei: "edge_info s cur = Some ei"
    by (cases "edge_info s cur") (auto simp: relax_def bnd_def lookup_def)
  from assms False c t d tr ei obtain dn where dn: "distances s (destination e) = Some dn"
    by (cases "distances s (destination e)") (auto simp: relax_def bnd_def lookup_def Let_def)
  show ?thesis
  proof (cases "composite cw tw conv (fadd c (cost e)) (fadd t (time e))
         (if mode_changed ei e then tr + 1 else tr) (mode_changed ei e) e")
    case PInf
    with assms False c t d tr ei dn have "s' = s"
      by (simp add: relax_def bnd_def lookup_def Let_def)
    then show ?thesis by (rule same)
  next
    case (Fin sc)
    show ?thesis
    proof (cases "flt (Fin sc) dn")
      case True
      with assms False c t d tr ei dn Fin
      have "s' = record_best s (destination e) sc (fadd c (cost e)) (fadd t (time e))
              (fadd d (distance e)) (if mode_changed ei e then tr + 1 else tr) cur e"
        by (simp add: relax_def bnd_def lookup_def Let_def)
      with False c t d tr ei dn Fin True show ?thesis by (rule best)
    next
      case no: False
      with assms False c t d tr ei dn Fin have "s' = s"
        by (simp add: relax_def bnd_def lookup_def Let_def)
      then show ?thesis by (rule same)
    qed
  qed
qed

lemma relax_pq_visited:
  assumes "relax cw tw conv cur e s = Inr s'"
  shows "visited s' = visited s \<and> snd ` set (pq s') \<subseteq> insert (destination e) (snd ` set (pq s))"
  using assms by (cases rule: relax_cases) (auto simp: record_best_def)

lemma relax_edges_Cons:
  assumes "relax_edges cw tw conv cur (e # es) s = Inr s'"
  obtains s1 where "relax cw tw conv cur e s = Inr s1" "relax_edges cw tw conv cur es s1 = Inr s'"
  using assms by (cases "relax cw tw conv cur e s") simp_all

lemma relax_edges_pq_visited:
  "relax_edges cw tw conv cur es s = Inr s' \<Longrightarrow>
     visited s' = visited s \<and> snd ` set (pq s') \<subseteq> destination ` set es \<union> snd ` set (pq s)"
proof (induction es arbitrary: s)
  case Nil
  then show ?case by simp
next
  case (Cons e es)
  from Cons.prems obtain s1 where r: "relax cw tw conv cur e s = Inr s1"
    and rs: "relax_edges cw tw conv cur es s1 = Inr s'"
    by (rule relax_edges_Cons)
  have a: "visited s1 = visited s" "snd ` set (pq s1) \<subseteq> insert (destination e) (snd ` set (pq s))"
    using relax_pq_visited[OF r] by simp_all
  have b: "visited s' = visited s1" "snd ` set (pq s') \<subseteq> destination ` set es \<union> snd ` set (pq s1)"
    using Cons.IH[OF rs] by simp_all
  have "snd ` set (pq s') \<subseteq> destination ` set (e # es) \<union> snd ` set (pq s)"
    using a(2) b(2) by (simp only: set_simps image_insert) blast
  with a(1) b(1) show ?case by simp
qed

function dijkstra_loop :: "optimizer \<Rightarrow> string \<Rightarrow> real \<Rightarrow> real \<Rightarrow> real \<Rightarrow> search_state \<Rightarrow> exn + search_state" where
  "dijkstra_loop self end_loc cw tw conv s =
     (case pq s of
        [] \<Rightarrow> Inr s
      | x # xs \<Rightarrow>
          let popped = heap_min x xs;
              current = snd popped;
              s1 = s\<lparr>pq := remove1 popped (x # xs)\<rparr>
          in if current \<in> visited s1 then dijkstra_loop self end_loc cw tw conv s1
             else
               let s2 = s1\<lparr>visited := insert current (visited s1)\<rparr>
               in if current = end_loc then Inr s2
                  else (case map_of (graph self) current of
                          None \<Rightarrow> dijkstra_loop self end_loc cw tw conv s2
                        | Some edges \<Rightarrow>
                            (case relax_edges cw tw conv current edges s2 of
                               Inl ex \<Rightarrow> Inl ex
                             | Inr s3 \<Rightarrow> dijkstra_loop self end_loc cw tw conv s3)))"
  by pat_completeness auto

definition unvisited :: "optimizer \<Rightarrow> search_state \<Rightarrow> string set" where
  "unvisited self s = (snd ` set (pq s) \<union> dests self) - visited s"

lemma finite_unvisited: "finite (unvisited self s)"
  by (simp add: unvisited_def finite_dests)

lemma map_of_dests: "map_of (graph self) k = Some es \<Longrightarrow> destination ` set es \<subseteq> dests self"
  by (auto simp: dests_def dest!: map_of_SomeD)

lemma unvisited_pop:
  assumes "p \<in> set (pq s)"
  shows "unvisited self (s\<lparr>pq := remove1 p (pq s)\<rparr>) \<subseteq> unvisited self s"
  using set_remove1_subset[of p "pq s"] by (auto simp: unvisited_def)

lemma unvisited_visit:
  assumes "snd ` set (pq s') \<subseteq> dests self \<union> snd ` set (pq s)"
    and "visited s' = insert (snd p) (visited s)" and "p \<in> set (pq s)" and "snd p \<notin> visited s"
  shows "card (unvisited self s') < card (unvisited self s)"
proof (rule psubset_card_mono[OF finite_unvisited])
  have "snd p \<in> unvisited self s" using assms(3,4) by (auto simp: unvisited_def)
  moreover have "snd p \<notin> unvisited self s'" using assms(2) by (simp add: unvisited_def)
  moreover have "unvisited self s' \<subseteq> unvisited self s"
    using assms(1,2) by (auto simp: unvisited_def)
  ultimately show "unvisited self s' \<subset> unvisited self s" by blast
qed

termination dijkstra_loop
proof (relation "measures [\<lambda>(self, end_loc, cw, tw, conv, s). card (unvisited self s),
                          \<lambda>(self, end_loc, cw, tw, conv, s). length (pq s)]", goal_cases)
  case 1
  then show ?case by simp
next
  case (2 self end_loc cw tw conv s x xs popped current s1)
  have in_pq: "popped \<in> set (pq s)"
    using 2 heap_min_in[of x xs] by simp
  have s1: "s1 = s\<lparr>pq := remove1 popped (pq s)\<rparr>"
    using 2 by simp
  have "unvisited self s1 \<subseteq> unvisited self s"
    unfolding s1 by (rule unvisited_pop[OF in_pq])
  then have "card (unvisited self s1) \<le> card (unvisited self s)"
    by (rule card_mono[OF finite_unvisited])
  moreover have "length (pq s1) < length (pq s)"
    unfolding s1 using in_pq length_pos_if_in_set[OF in_pq] by (simp add: length_remove1)
  ultimately show ?case by auto
next
  case (3 self end_loc cw tw conv s x xs popped current s1 s2)
  have in_pq: "popped \<in> set (pq s)"
    using 3 heap_min_in[of x xs] by simp
  have s2: "pq s2 = remove1 popped (pq s)" "visited s2 = insert (snd popped) (visited s)"
    using 3 by simp_all
  have fresh: "snd popped \<notin> visited s"
    using 3 by simp
  have "card (unvisited self s2) < card (unvisited self s)"
  proof (rule unvisited_visit[where p = popped, OF _ s2(2) in_pq fresh])
    show "snd ` set (pq s2) \<subseteq> dests self \<union> snd ` set (pq s)"
      unfolding s2 using set_remove1_subset[of popped "pq s"] by blast
  qed
  then show ?case by simp
next
  case (4 self end_loc cw tw conv s x xs popped current s1 s2 edges s3)
  have in_pq: "popped \<in> set (pq s)"
    using 4 heap_min_in[of x xs] by simp
  have s2: "pq s2 = remove1 popped (pq s)" "visited s2 = insert (snd popped) (visited s)"
    using 4 by simp_all
  have fresh: "snd popped \<notin> visited s"
    using 4 by simp
  from 4 have rel: "relax_edges cw tw conv current edges s2 = Inr s3"
    and adj: "map_of (graph self) current = Some edges"
    by simp_all
  note r = relax_edges_pq_visited[OF rel]
  have vis: "visited s3 = insert (snd popped) (visited s)"
    using r s2 by simp
  have "card (unvisited self s3) < card (unvisited self s)"
  proof (rule unvisited_visit[where p = popped, OF _ vis in_pq fresh])
    have "snd ` set (pq s2) \<subseteq> snd ` set (pq s)"
      unfolding s2 using set_remove1_subset[of popped "pq s"] by blast
    then show "snd ` set (pq s3) \<subseteq> dests self \<union> snd ` set (pq s)"
      using r map_of_dests[OF adj] by blast
  qed
  then show ?case by simp
qed

declare dijkstra_loop.simps [simp del]

text \<open>\<^verbatim>\<open>_dijkstra\<close>: the dictionaries hold one entry per catalog location, then the entries
  of \<open>start\<close> are set. The returned dictionary holds the seven maps of the final state.\<close>

definition initial_state :: "optimizer \<Rightarrow> string \<Rightarrow> search_state" where
  "initial_state self start =
     \<lparr>distances = (\<lambda>loc. map_option (\<lambda>_. PInf) (map_of (locations self) loc))(start \<mapsto> Fin 0),
      costs = (\<lambda>loc. map_option (\<lambda>_. PInf) (map_of (locations self) loc))(start \<mapsto> Fin 0),
      times = (\<lambda>loc. map_option (\<lambda>_. PInf) (map_of (locations self) loc))(start \<mapsto> Fin 0),
      distances_km = (\<lambda>loc. map_option (\<lambda>_. PInf) (map_of (locations self) loc))(start \<mapsto> Fin 0),
      transfers = (\<lambda>loc. map_option (\<lambda>_. 0) (map_of (locations self) loc))(start \<mapsto> 0),
      previous = (\<lambda>loc. map_option (\<lambda>_. None) (map_of (locations self) loc)),
      edge_info = (\<lambda>loc. map_option (\<lambda>_. None) (map_of (locations self) loc)),
      pq = [(0, start)],
      visited = {}\<rparr>"

definition dijkstra :: "optimizer \<Rightarrow> string \<Rightarrow> string \<Rightarrow> real \<Rightarrow> real \<Rightarrow> real \<Rightarrow> exn + search_state" where
  "dijkstra self start end_loc cw tw conv = dijkstra_loop self end_loc cw tw conv (initial_state self start)"

section \<open>Path reconstruction\<close>

text \<open>
  \<^verbatim>\<open>while current is not None: path.append(current); current = result['previous'][current]\<close>.
  On a cyclic chain of predecessors the loop never ends: the result is then \<open>None\<close>.
\<close>

partial_function (option) walk_back ::
  "(string \<rightharpoonup> string option) \<Rightarrow> string option \<Rightarrow> string list \<Rightarrow> (exn + string list) option" where
  "walk_back prev current acc =
     (case current of
        None \<Rightarrow> Some (Inr acc)
      | Some c \<Rightarrow>
          (case prev c of
             None \<Rightarrow> Some (Inl (KeyError c))
           | Some p \<Rightarrow> walk_back prev p (acc @ [c])))"

declare walk_back.simps [code]

definition start_step :: "optimizer \<Rightarrow> string \<Rightarrow> exn + step" where
  "start_step self loc =
     bnd (lookup (map_of (locations self)) loc) (\<lambda>l.
       Inr \<lparr>location = loc, step_type = loc_type l, step_mode = ''start'',
            segment_time = 0, segment_cost = 0, segment_distance = 0\<rparr>)"

definition detail_step :: "optimizer \<Rightarrow> search_state \<Rightarrow> string \<Rightarrow> exn + step" where
  "detail_step self result loc =
     bnd (lookup (edge_info result) loc) (\<lambda>edge.
       case edge of
         Some e \<Rightarrow>
           bnd (lookup (map_of (locations self)) loc) (\<lambda>l.
             Inr \<lparr>location = loc, step_type = loc_type l, step_mode = mode e,
                  segment_time = py_round (time e) 1,
                  segment_cost = py_round (cost e) 2,
                  segment_distance = py_round (distance e) 2\<rparr>)
       | None \<Rightarrow>
           bnd (lookup (map_of (locations self)) loc) (\<lambda>l.
             Inr \<lparr>location = loc, step_type = loc_type l, step_mode = ''unknown'',
                  segment_time = 0, segment_cost = 0, segment_distance = 0\<rparr>))"

fun detail_steps :: "optimizer \<Rightarrow> search_state \<Rightarrow> string list \<Rightarrow> exn + step list" where
  "detail_steps self result [] = Inr []"
| "detail_steps self result (loc # locs) =
     bnd (detail_step self result loc) (\<lambda>st.
     bnd (detail_steps self result locs) (\<lambda>sts. Inr (st # sts)))"

definition reconstruct_path ::
  "optimizer \<Rightarrow> string \<Rightarrow> string \<Rightarrow> search_state \<Rightarrow> (exn + step list) option" where
  "reconstruct_path self start end_loc result =
     (case walk_back (previous result) (Some end_loc) [] of
        None \<Rightarrow> None
      | Some (Inl ex) \<Rightarrow> Some (Inl ex)
      | Some (Inr backwards) \<Rightarrow>
          (case rev backwards of
             [] \<Rightarrow> Some (Inr [])
           | first # rest \<Rightarrow>
               if first \<noteq> start then Some (Inr [])
               else Some (bnd (start_step self first) (\<lambda>s0.
                          bnd (detail_steps self result rest) (\<lambda>sts. Inr (s0 # sts))))))"

section \<open>The query\<close>

instantiation pyfloat :: linorder
begin

definition less_pyfloat :: "pyfloat \<Rightarrow> pyfloat \<Rightarrow> bool" where
  "less_pyfloat x y = flt x y"

definition less_eq_pyfloat :: "pyfloat \<Rightarrow> pyfloat \<Rightarrow> bool" where
  "less_eq_pyfloat x y = (\<not> flt y x)"

instance
proof
  fix x y z :: pyfloat
  show "(x < y) = (x \<le> y \<and> \<not> y \<le> x)"
    by (cases x; cases y) (auto simp: less_pyfloat_def less_eq_pyfloat_def)
  show "x \<le> x"
    by (cases x) (auto simp: less_eq_pyfloat_def)
  show "x \<le> y \<Longrightarrow> y \<le> z \<Longrightarrow> x \<le> z"
    by (cases x; cases y; cases z) (auto simp: less_eq_pyfloat_def)
  show "x \<le> y \<Longrightarrow> y \<le> x \<Longrightarrow> x = y"
    by (cases x; cases y) (auto simp: less_eq_pyfloat_def)
  show "x \<le> y \<or> y \<le> x"
    by (cases x; cases y) (auto simp: less_eq_pyfloat_def)
qed

end

text \<open>\<^verbatim>\<open>x * k\<close> for a positive constant \<open>k\<close>, and \<^verbatim>\<open>x + y\<close>, on floats.\<close>

fun fscale :: "pyfloat \<Rightarrow> real \<Rightarrow> pyfloat" where
  "fscale (Fin a) k = Fin (a * k)"
| "fscale PInf k = PInf"

fun fplus :: "pyfloat \<Rightarrow> pyfloat \<Rightarrow> pyfloat" where
  "fplus (Fin a) (Fin b) = Fin (a + b)"
| "fplus x y = PInf"

definition strategies :: "weights list" where
  "strategies =
     [\<lparr>name = ''Cheapest'', cost_weight = 0.8, time_weight = 0.1, convenience_weight = 0.1\<rparr>,
      \<lparr>name = ''Fastest'', cost_weight = 0.1, time_weight = 0.8, convenience_weight = 0.1\<rparr>,
      \<lparr>name = ''Balanced'', cost_weight = 0.4, time_weight = 0.4, convenience_weight = 0.2\<rparr>,
      \<lparr>name = ''Most Convenient'', cost_weight = 0.2, time_weight = 0.3, convenience_weight = 0.5\<rparr>]"

text \<open>One round of \<^verbatim>\<open>for strategy in strategies\<close>: the route it appends, if any.\<close>

definition strategy_route ::
  "optimizer \<Rightarrow> string \<Rightarrow> string \<Rightarrow> weights \<Rightarrow> (exn + route option) option" where
  "strategy_route self start end_loc st =
     (case dijkstra self start end_loc (cost_weight st) (time_weight st) (convenience_weight st) of
        Inl ex \<Rightarrow> Some (Inl ex)
      | Inr result \<Rightarrow>
          (case lookup (previous result) end_loc of
             Inl ex \<Rightarrow> Some (Inl ex)
           | Inr None \<Rightarrow> Some (Inr None)
           | Inr (Some p) \<Rightarrow>
               (case reconstruct_path self start end_loc result of
                  None \<Rightarrow> None
                | Some (Inl ex) \<Rightarrow> Some (Inl ex)
                | Some (Inr pth) \<Rightarrow>
                    if pth = [] then Some (Inr None)
                    else Some (
                      bnd (lookup (costs result) end_loc) (\<lambda>c.
                      bnd (lookup (times result) end_loc) (\<lambda>t.
                      bnd (lookup (distances_km result) end_loc) (\<lambda>d.
                        Inr (Some \<lparr>strategy = name st,
                                   total_cost = fround c 2,
                                   total_time = fround t 1,
                                   total_distance = fround d 2,
                                   num_segments = int (length pth) - 1,
                                   path = pth\<rparr>))))))))"

fun all_routes :: "optimizer \<Rightarrow> string \<Rightarrow> string \<Rightarrow> weights list \<Rightarrow> (exn + route list) option" where
  "all_routes self start end_loc [] = Some (Inr [])"
| "all_routes self start end_loc (st # sts) =
     (case strategy_route self start end_loc st of
        None \<Rightarrow> None
      | Some (Inl ex) \<Rightarrow> Some (Inl ex)
      | Some (Inr ro) \<Rightarrow>
          (case all_routes self start end_loc sts of
             None \<Rightarrow> None
           | Some (Inl ex) \<Rightarrow> Some (Inl ex)
           | Some (Inr rs) \<Rightarrow> Some (Inr (case ro of None \<Rightarrow> rs | Some r \<Rightarrow> r # rs))))"

definition path_key :: "route \<Rightarrow> string list" where
  "path_key r = map location (path r)"

fun unique_routes :: "route list \<Rightarrow> string list set \<Rightarrow> route list" where
  "unique_routes [] seen_paths = []"
| "unique_routes (r # rs) seen_paths =
     (if path_key r \<notin> seen_paths then r # unique_routes rs (insert (path_key r) seen_paths)
      else unique_routes rs seen_paths)"

text \<open>The key of the final sort, \<^verbatim>\<open>r['total_cost'] * 0.6 + r['total_time'] * 0.4\<close>;
  \<^verbatim>\<open>list.sort\<close> is stable, as \<open>sort_key\<close> is.\<close>

definition rank_key :: "route \<Rightarrow> pyfloat" where
  "rank_key r = fplus (fscale (total_cost r) 0.6) (fscale (total_time r) 0.4)"

definition find_optimized_routes :: "optimizer \<Rightarrow> string \<Rightarrow> string \<Rightarrow> (exn + entry list) option" where
  "find_optimized_routes self start_location end_location =
     (if map_of (locations self) start_location = None
      then Some (Inr [Error (''Start location '' @ [CHR 0x27] @ start_location @ [CHR 0x27] @ '' not found'')])
      else if map_of (locations self) end_location = None
      then Some (Inr [Error (''End location '' @ [CHR 0x27] @ end_location @ [CHR 0x27] @ '' not found'')])
      else if start_location = end_location
      then Some (Inr [Error ''Start and end locations are the same''])
      else
        (case all_routes self start_location end_location strategies of
           None \<Rightarrow> None
         | Some (Inl ex) \<Rightarrow> Some (Inl ex)
         | Some (Inr routes) \<Rightarrow>
             let unique = sort_key rank_key (unique_routes routes {})
             in if unique = []
                then Some (Inr [Error (''No route found between '' @ start_location @ '' and '' @ end_location)])
                else Some (Inr (map Route unique))))"

section \<open>A small network for concrete instances\<close>

text \<open>Five locations on a line, each joined to the next by one bus edge.\<close>

definition hop :: "string \<Rightarrow> edge" where
  "hop d = \<lparr>destination = d, mode = ''bus'', time = 1.04, distance = 1.004, cost = 1.004\<rparr>"

definition anywhere :: location where
  "anywhere = \<lparr>lat = 0, lon = 0, loc_type = ''junction'', zone = ''N/A''\<rparr>"

definition demo :: optimizer where
  "demo =
     \<lparr>graph = [(''A'', [hop ''B'']), (''B'', [hop ''C'']), (''C'', [hop ''D'']), (''D'', [hop ''E''])],
      locations = [(''A'', anywhere), (''B'', anywhere), (''C'', anywhere), (''D'', anywhere),
                   (''E'', anywhere)],
      metro_stations = []\<rparr>"

section \<open>Validation of the endpoints\<close>

definition start_not_found :: "string \<Rightarrow> entry list" where
  "start_not_found start_location =
     [Error (''Start location '' @ [CHR 0x27] @ start_location @ [CHR 0x27] @ '' not found'')]"

definition end_not_found :: "string \<Rightarrow> entry list" where
  "end_not_found end_location =
     [Error (''End location '' @ [CHR 0x27] @ end_location @ [CHR 0x27] @ '' not found'')]"

definition same_endpoints :: "entry list" where
  "same_endpoints = [Error ''Start and end locations are the same'']"

definition no_route_found :: "string \<Rightarrow> string \<Rightarrow> entry list" where
  "no_route_found start_location end_location =
     [Error (''No route found between '' @ start_location @ '' and '' @ end_location)]"

text \<open>
  C9. A start name absent from the catalog gives the error for the start name, whatever the
  end name is (equal to the start, absent too, or present); an absent end name gives its
  error only when the start exists; and the endpoints are compared only when both exist.
\<close>

theorem validation_order:
  "(map_of (locations self) start_location = None \<longrightarrow>
      find_optimized_routes self start_location end_location = Some (Inr (start_not_found start_location)))
   \<and> (map_of (locations self) start_location \<noteq> None \<and> map_of (locations self) end_location = None \<longrightarrow>
      find_optimized_routes self start_location end_location = Some (Inr (end_not_found end_location)))
   \<and> (map_of (locations self) start_location \<noteq> None \<and> map_of (locations self) end_location \<noteq> None
        \<and> start_location = end_location \<longrightarrow>
      find_optimized_routes self start_location end_location = Some (Inr same_endpoints))"
  by (simp add: find_optimized_routes_def start_not_found_def end_not_found_def same_endpoints_def)

theorem validation_order_witness:
  "map_of (locations demo) ''X'' = None
   \<and> find_optimized_routes demo ''X'' ''X'' = Some (Inr (start_not_found ''X''))
   \<and> find_optimized_routes demo ''X'' ''Y'' = Some (Inr (start_not_found ''X''))
   \<and> find_optimized_routes demo ''X'' ''A'' = Some (Inr (start_not_found ''X''))
   \<and> map_of (locations demo) ''A'' \<noteq> None
   \<and> find_optimized_routes demo ''A'' ''X'' = Some (Inr (end_not_found ''X''))
   \<and> find_optimized_routes demo ''A'' ''A'' = Some (Inr same_endpoints)"
  using validation_order [of demo "''X''" "''X''"] validation_order [of demo "''X''" "''Y''"]
    validation_order [of demo "''X''" "''A''"] validation_order [of demo "''A''" "''X''"]
    validation_order [of demo "''A''" "''A''"]
  by (simp add: demo_def)

section \<open>The relaxation step\<close>

text \<open>
  The specification's words: the mode of the edge differs from the mode of the edge that
  reached the current node (no edge reached the start), and the composite of section 4.3
  with its tests against zero.
\<close>

definition mode_differs :: "edge option \<Rightarrow> edge \<Rightarrow> bool" where
  "mode_differs ei e = (case ei of None \<Rightarrow> False | Some pe \<Rightarrow> mode pe \<noteq> mode e)"

definition spec_composite :: "real \<Rightarrow> real \<Rightarrow> real \<Rightarrow> real \<Rightarrow> real \<Rightarrow> int \<Rightarrow> bool \<Rightarrow> edge \<Rightarrow> real" where
  "spec_composite cw tw conv acc_cost acc_time acc_transfers differs e =
     cw * (if acc_cost = 0 then 0 else acc_cost / 200)
     + tw * (if acc_time = 0 then 0 else acc_time / 120)
     + conv * ((if acc_transfers = 0 then 0 else real_of_int acc_transfers / 5)
               + (if differs then 0.3 else 0)
               + (if mode e = ''walk'' \<and> distance e > 0.5 then distance e * 0.2 else 0))"

lemma mode_changed_differs:
  "(case ei of None \<Rightarrow> True | Some pe \<Rightarrow> mode pe \<noteq> []) \<Longrightarrow> mode_changed ei e = mode_differs ei e"
  by (cases ei) (simp_all add: mode_changed_def mode_differs_def)

lemma composite_spec:
  assumes "0 \<le> nc" "0 \<le> nt" "0 \<le> ntr"
  shows "composite cw tw conv (Fin nc) (Fin nt) ntr ch e = Fin (spec_composite cw tw conv nc nt ntr ch e)"
  using assms by (simp add: composite_def spec_composite_def Let_def)

text \<open>
  C1. Relaxing an edge from the current node to a neighbour that is not closed: the composite
  is the weighted sum of the specification, the transfer count grows exactly when the mode
  differs from that of the edge that reached the current node, and the seven records and
  the heap change if and only if the composite is strictly below the recorded score;
  otherwise the state stays as it is. The accumulators of the current node are finite and
  not negative, as they are for every node the search pops when no edge has a negative cost
  or time.
\<close>

theorem relax_step:
  assumes unvisited: "destination e \<notin> visited s"
    and cur: "costs s cur = Some (Fin c)" "times s cur = Some (Fin t)"
      "distances_km s cur = Some (Fin d)" "transfers s cur = Some tr" "edge_info s cur = Some ei"
    and best: "distances s (destination e) = Some best"
    and nonneg: "0 \<le> c" "0 \<le> t" "0 \<le> tr" "0 \<le> cost e" "0 \<le> time e"
    and modes: "case ei of None \<Rightarrow> True | Some pe \<Rightarrow> mode pe \<noteq> []"
  shows "relax cw tw conv cur e s =
     Inr (let acc_transfers = (if mode_differs ei e then tr + 1 else tr);
              score = spec_composite cw tw conv (c + cost e) (t + time e) acc_transfers
                        (mode_differs ei e) e
          in if flt (Fin score) best
             then s\<lparr>distances := (distances s)(destination e \<mapsto> Fin score),
                    costs := (costs s)(destination e \<mapsto> Fin (c + cost e)),
                    times := (times s)(destination e \<mapsto> Fin (t + time e)),
                    distances_km := (distances_km s)(destination e \<mapsto> Fin (d + distance e)),
                    transfers := (transfers s)(destination e \<mapsto> acc_transfers),
                    previous := (previous s)(destination e \<mapsto> Some cur),
                    edge_info := (edge_info s)(destination e \<mapsto> Some e),
                    pq := pq s @ [(score, destination e)]\<rparr>
             else s)"
proof -
  have ch: "mode_changed ei e = mode_differs ei e"
    by (rule mode_changed_differs[OF modes])
  have tr': "0 \<le> (if mode_differs ei e then tr + 1 else tr)"
    using nonneg(3) by simp
  have comp: "composite cw tw conv (Fin (c + cost e)) (Fin (t + time e))
                (if mode_differs ei e then tr + 1 else tr) (mode_differs ei e) e
              = Fin (spec_composite cw tw conv (c + cost e) (t + time e)
                      (if mode_differs ei e then tr + 1 else tr) (mode_differs ei e) e)"
    by (rule composite_spec) (use nonneg tr' in simp_all)
  show ?thesis
    using unvisited cur best
    by (simp add: relax_def bnd_def lookup_def Let_def ch comp record_best_def)
qed


theorem relax_step_witness:
  "relax 0.8 0.1 0.1 ''A'' (hop ''B'') (initial_state demo ''A'') =
     Inr ((initial_state demo ''A'')
            \<lparr>distances := (distances (initial_state demo ''A''))
               (''B'' \<mapsto> Fin (0.8 * (1.004 / 200) + 0.1 * (1.04 / 120))),
             costs := (costs (initial_state demo ''A''))(''B'' \<mapsto> Fin 1.004),
             times := (times (initial_state demo ''A''))(''B'' \<mapsto> Fin 1.04),
             distances_km := (distances_km (initial_state demo ''A''))(''B'' \<mapsto> Fin 1.004),
             transfers := (transfers (initial_state demo ''A''))(''B'' \<mapsto> 0),
             previous := (previous (initial_state demo ''A''))(''B'' \<mapsto> Some ''A''),
             edge_info := (edge_info (initial_state demo ''A''))(''B'' \<mapsto> Some (hop ''B'')),
             pq := [(0, ''A''), (0.8 * (1.004 / 200) + 0.1 * (1.04 / 120), ''B'')]\<rparr>)"
  using relax_step [of "hop ''B''" "initial_state demo ''A''" "''A''" 0 0 0 0 None PInf "0.8" "0.1" "0.1"]
  by (simp add: initial_state_def demo_def hop_def mode_differs_def spec_composite_def Let_def)

section \<open>Aggregation: the list of routes\<close>

lemma map_insort_key_set: "set (map g (insort_key f x xs)) = set (map g (x # xs))"
  by (simp add: set_insort_key)

lemma distinct_map_insort_key:
  "distinct (map g (insort_key f x xs)) = distinct (map g (x # xs))"
proof (induction xs)
  case Nil
  then show ?case by simp
next
  case (Cons y ys)
  have "g ` set (insort_key f x ys) = insert (g x) (g ` set ys)"
    by (simp add: set_insort_key)
  with Cons show ?case by auto
qed

lemma distinct_map_sort_key: "distinct (map g (sort_key f xs)) = distinct (map g xs)"
proof (induction xs)
  case Nil
  then show ?case by simp
next
  case (Cons x xs)
  have "sort_key f (x # xs) = insort_key f x (sort_key f xs)"
    by (simp add: sort_key_def)
  then show ?case
    using Cons by (simp add: distinct_map_insort_key)
qed

lemma subseq_set_mono: "subseq xs ys \<Longrightarrow> set xs \<subseteq> set ys"
  by (induction rule: list_emb.induct) auto

lemma subseq_distinct_mono: "subseq xs ys \<Longrightarrow> distinct ys \<Longrightarrow> distinct xs"
  by (rule subseqs_distinctD[of xs ys]) simp_all

lemma unique_routes_subseq: "subseq (unique_routes rs seen) rs"
  by (induction rs arbitrary: seen) auto

lemma unique_routes_subset: "set (unique_routes rs seen) \<subseteq> set rs"
  by (induction rs arbitrary: seen) auto

lemma unique_routes_keys:
  "path_key ` set (unique_routes rs seen) = path_key ` set rs - seen"
  by (induction rs arbitrary: seen) auto

lemma unique_routes_distinct: "distinct (map path_key (unique_routes rs seen))"
proof (induction rs arbitrary: seen)
  case Nil
  then show ?case by simp
next
  case (Cons r rs)
  show ?case
  proof (cases "path_key r \<in> seen")
    case True
    then show ?thesis using Cons by simp
  next
    case False
    have "path_key r \<notin> path_key ` set (unique_routes rs (insert (path_key r) seen))"
      unfolding unique_routes_keys by simp
    with False Cons show ?thesis by simp
  qed
qed

lemma unique_routes_first:
  "r \<in> set (unique_routes rs seen) \<Longrightarrow> find (\<lambda>a. path_key a = path_key r) rs = Some r"
proof (induction rs arbitrary: seen)
  case Nil
  then show ?case by simp
next
  case (Cons x rs)
  show ?case
  proof (cases "path_key x \<in> seen")
    case True
    with Cons.prems have in_rest: "r \<in> set (unique_routes rs seen)" by simp
    then have "path_key r \<in> path_key ` set (unique_routes rs seen)" by blast
    then have "path_key r \<notin> seen" unfolding unique_routes_keys by simp
    with True have "path_key x \<noteq> path_key r" by auto
    with Cons.IH[OF in_rest] show ?thesis by simp
  next
    case False
    with Cons.prems have "r = x \<or> r \<in> set (unique_routes rs (insert (path_key x) seen))"
      by simp
    then show ?thesis
    proof
      assume "r = x"
      then show ?thesis by simp
    next
      assume in_rest: "r \<in> set (unique_routes rs (insert (path_key x) seen))"
      then have "path_key r \<in> path_key ` set (unique_routes rs (insert (path_key x) seen))"
        by blast
      then have "path_key r \<noteq> path_key x" unfolding unique_routes_keys by auto
      with Cons.IH[OF in_rest] show ?thesis by auto
    qed
  qed
qed

lemma all_routes_Cons:
  assumes "all_routes self s e (st # sts) = Some (Inr rs)"
  obtains ro rest where "strategy_route self s e st = Some (Inr ro)"
    "all_routes self s e sts = Some (Inr rest)" "rs = (case ro of None \<Rightarrow> rest | Some r \<Rightarrow> r # rest)"
proof -
  from assms obtain ro where ro: "strategy_route self s e st = Some (Inr ro)"
    by (cases "strategy_route self s e st") (auto split: sum.splits)
  with assms obtain rest where rest: "all_routes self s e sts = Some (Inr rest)"
    by (cases "all_routes self s e sts") (auto split: sum.splits)
  with ro assms have "rs = (case ro of None \<Rightarrow> rest | Some r \<Rightarrow> r # rest)" by simp
  with ro rest show ?thesis by (rule that)
qed

lemma strategy_route_name:
  assumes "strategy_route self s e st = Some (Inr (Some r))"
  shows "strategy r = name st"
  using assms
  by (auto simp: strategy_route_def bnd_def split: sum.splits option.splits if_splits)

lemma all_routes_from:
  "all_routes self s e sts = Some (Inr rs) \<Longrightarrow>
     subseq (map strategy rs) (map name sts)
     \<and> (\<forall>r \<in> set rs. \<exists>st \<in> set sts. strategy_route self s e st = Some (Inr (Some r)))"
proof (induction sts arbitrary: rs)
  case Nil
  then show ?case by simp
next
  case (Cons st sts)
  from Cons.prems obtain ro rest where ro: "strategy_route self s e st = Some (Inr ro)"
    and rest: "all_routes self s e sts = Some (Inr rest)"
    and rs: "rs = (case ro of None \<Rightarrow> rest | Some r \<Rightarrow> r # rest)"
    by (rule all_routes_Cons)
  note ih = Cons.IH[OF rest]
  show ?case
  proof (cases ro)
    case None
    with rs ih show ?thesis by auto
  next
    case (Some r)
    with ro have "strategy r = name st" by (simp add: strategy_route_name)
    with Some rs ih ro show ?thesis by auto
  qed
qed

text \<open>What a list of routes returned by the query is made of.\<close>

lemma find_routes_cases:
  assumes "find_optimized_routes self s e = Some (Inr (map Route rs))"
  obtains routes where "map_of (locations self) s \<noteq> None" "map_of (locations self) e \<noteq> None"
    "s \<noteq> e" "all_routes self s e strategies = Some (Inr routes)"
    "rs = sort_key rank_key (unique_routes routes {})" "rs \<noteq> []"
proof -
  have valid: "map_of (locations self) s \<noteq> None" "map_of (locations self) e \<noteq> None" "s \<noteq> e"
    using assms by (auto simp: find_optimized_routes_def split: if_splits)
  with assms obtain routes where routes: "all_routes self s e strategies = Some (Inr routes)"
    by (cases "all_routes self s e strategies") (auto simp: find_optimized_routes_def split: sum.splits)
  from assms valid routes have "map Route rs = map Route (sort_key rank_key (unique_routes routes {}))
      \<and> sort_key rank_key (unique_routes routes {}) \<noteq> []"
    by (auto simp: find_optimized_routes_def Let_def split: if_splits)
  then have "rs = sort_key rank_key (unique_routes routes {})" "rs \<noteq> []"
    by (auto simp: inj_map_eq_map inj_on_def)
  with valid routes show ?thesis by (rule that)
qed

lemma find_entry_route:
  assumes "find_optimized_routes self s e = Some (Inr es)" and "Route r \<in> set es"
  obtains rs where "es = map Route rs"
proof -
  have valid: "map_of (locations self) s \<noteq> None" "map_of (locations self) e \<noteq> None" "s \<noteq> e"
    using assms by (auto simp: find_optimized_routes_def split: if_splits)
  with assms obtain routes where routes: "all_routes self s e strategies = Some (Inr routes)"
    by (cases "all_routes self s e strategies") (auto simp: find_optimized_routes_def split: sum.splits)
  from assms valid routes have "es = map Route (sort_key rank_key (unique_routes routes {}))"
    by (auto simp: find_optimized_routes_def Let_def split: if_splits)
  then show ?thesis by (rule that)
qed

section \<open>The chain of predecessors\<close>

text \<open>\<open>follows prev current ls\<close>: the locations \<open>ls\<close> are those the loop of
  \<^verbatim>\<open>_reconstruct_path\<close> appends from \<open>current\<close> on, until it reads \<^verbatim>\<open>None\<close>.\<close>

fun follows :: "(string \<rightharpoonup> string option) \<Rightarrow> string option \<Rightarrow> string list \<Rightarrow> bool" where
  "follows prev current [] = (current = None)"
| "follows prev current (l # ls) =
     (current = Some l \<and> (case prev l of None \<Rightarrow> False | Some p \<Rightarrow> follows prev p ls))"

lemma walk_back_follows_aux:
  assumes "walk_back prev current acc = Some y"
  shows "\<forall>ls. y = Inr ls \<longrightarrow> (\<exists>trail. ls = acc @ trail \<and> follows prev current trail)"
proof (rule walk_back.raw_induct[where P = "\<lambda>prev current acc y.
          \<forall>ls. y = Inr ls \<longrightarrow> (\<exists>trail. ls = acc @ trail \<and> follows prev current trail)",
        OF _ assms], goal_cases)
  case (1 walk prev current acc y)
  show ?case
  proof (cases current)
    case None
    with 1(2) show ?thesis by auto
  next
    case (Some c)
    show ?thesis
    proof (cases "prev c")
      case None
      with Some 1(2) show ?thesis by auto
    next
      case p: (Some p)
      with Some 1(2) have "walk prev p (acc @ [c]) = Some y" by simp
      from 1(1)[OF this]
      have ih: "\<forall>ls. y = Inr ls \<longrightarrow> (\<exists>trail. ls = (acc @ [c]) @ trail \<and> follows prev p trail)" .
      show ?thesis
      proof (intro allI impI)
        fix ls assume "y = Inr ls"
        with ih obtain trail where "ls = (acc @ [c]) @ trail" "follows prev p trail" by blast
        then have "ls = acc @ (c # trail) \<and> follows prev current (c # trail)"
          using Some p by simp
        then show "\<exists>trail. ls = acc @ trail \<and> follows prev current trail" by blast
      qed
    qed
  qed
qed

lemma walk_back_follows:
  assumes "walk_back prev current acc = Some (Inr ls)"
  obtains trail where "ls = acc @ trail" "follows prev current trail"
  using walk_back_follows_aux[OF assms] by blast

lemma follows_walk_back:
  "follows prev current trail \<Longrightarrow> walk_back prev current acc = Some (Inr (acc @ trail))"
proof (induction trail arbitrary: current acc)
  case Nil
  then show ?case by (simp add: walk_back.simps)
next
  case (Cons l ls)
  from Cons.prems obtain p where cur: "current = Some l" and p: "prev l = Some p"
    and rest: "follows prev p ls"
    by (auto split: option.splits)
  have "walk_back prev current acc = walk_back prev p (acc @ [l])"
    by (subst walk_back.simps) (simp add: cur p)
  also have "\<dots> = Some (Inr ((acc @ [l]) @ ls))"
    by (rule Cons.IH[OF rest])
  finally show ?case by simp
qed

lemma detail_steps_Cons:
  assumes "detail_steps self result (loc # locs) = Inr sts"
  obtains st rest where "detail_step self result loc = Inr st"
    "detail_steps self result locs = Inr rest" "sts = st # rest"
proof -
  from assms obtain st where st: "detail_step self result loc = Inr st"
    by (cases "detail_step self result loc") (auto simp: bnd_def)
  with assms obtain rest where rest: "detail_steps self result locs = Inr rest"
    by (cases "detail_steps self result locs") (auto simp: bnd_def)
  with st assms have "sts = st # rest" by (simp add: bnd_def)
  with st rest show ?thesis by (rule that)
qed

lemma detail_step_location: "detail_step self result loc = Inr st \<Longrightarrow> location st = loc"
  by (auto simp: detail_step_def bnd_def lookup_def split: option.splits)

lemma detail_steps_locations:
  "detail_steps self result locs = Inr sts \<Longrightarrow> map location sts = locs"
proof (induction locs arbitrary: sts)
  case Nil
  then show ?case by simp
next
  case (Cons loc locs)
  from Cons.prems obtain st rest where "detail_step self result loc = Inr st"
    "detail_steps self result locs = Inr rest" "sts = st # rest"
    by (rule detail_steps_Cons)
  with Cons.IH[of rest] show ?case by (simp add: detail_step_location)
qed

lemma start_step_fields:
  assumes "start_step self loc = Inr s0"
  shows "location s0 = loc \<and> step_mode s0 = ''start'' \<and> segment_cost s0 = 0
     \<and> segment_time s0 = 0 \<and> segment_distance s0 = 0"
  using assms by (auto simp: start_step_def bnd_def lookup_def split: option.splits)

lemma reconstruct_path_cases:
  assumes "reconstruct_path self start end_loc result = Some (Inr pth)" and "pth \<noteq> []"
  obtains trail rest s0 sts where "follows (previous result) (Some end_loc) trail"
    "rev trail = start # rest" "start_step self start = Inr s0"
    "detail_steps self result rest = Inr sts" "pth = s0 # sts"
proof -
  from assms(1) obtain bw where bw: "walk_back (previous result) (Some end_loc) [] = Some (Inr bw)"
    by (cases "walk_back (previous result) (Some end_loc) []")
       (auto simp: reconstruct_path_def split: sum.splits)
  then obtain trail where trail: "bw = [] @ trail" "follows (previous result) (Some end_loc) trail"
    by (rule walk_back_follows)
  from assms bw obtain first rest where fr: "rev bw = first # rest"
    by (cases "rev bw") (auto simp: reconstruct_path_def)
  from assms bw fr have first: "first = start"
    by (auto simp: reconstruct_path_def split: if_splits)
  from assms bw fr first
  have steps: "bnd (start_step self start) (\<lambda>s0.
                 bnd (detail_steps self result rest) (\<lambda>sts. Inr (s0 # sts))) = Inr pth"
    by (simp add: reconstruct_path_def)
  then obtain s0 where s0: "start_step self start = Inr s0"
    by (cases "start_step self start") (auto simp: bnd_def)
  with steps obtain sts where sts: "detail_steps self result rest = Inr sts"
    by (cases "detail_steps self result rest") (auto simp: bnd_def)
  with steps s0 have "pth = s0 # sts" by (simp add: bnd_def)
  with trail fr first s0 sts show ?thesis by (auto intro: that)
qed

lemma strategy_route_cases:
  assumes "strategy_route self start end_loc st = Some (Inr (Some r))"
  obtains result p pth c t d where
    "dijkstra self start end_loc (cost_weight st) (time_weight st) (convenience_weight st) = Inr result"
    "previous result end_loc = Some (Some p)"
    "reconstruct_path self start end_loc result = Some (Inr pth)" "pth \<noteq> []"
    "costs result end_loc = Some c" "times result end_loc = Some t"
    "distances_km result end_loc = Some d"
    "r = \<lparr>strategy = name st, total_cost = fround c 2, total_time = fround t 1,
          total_distance = fround d 2, num_segments = int (length pth) - 1, path = pth\<rparr>"
proof -
  from assms obtain result where res:
    "dijkstra self start end_loc (cost_weight st) (time_weight st) (convenience_weight st) = Inr result"
    by (cases "dijkstra self start end_loc (cost_weight st) (time_weight st) (convenience_weight st)")
       (auto simp: strategy_route_def)
  from assms res obtain p where p: "previous result end_loc = Some (Some p)"
    by (cases "previous result end_loc")
       (auto simp: strategy_route_def lookup_def split: option.splits)
  from assms res p obtain pth where pth: "reconstruct_path self start end_loc result = Some (Inr pth)"
    by (cases "reconstruct_path self start end_loc result")
       (auto simp: strategy_route_def lookup_def split: sum.splits)
  from assms res p pth have ne: "pth \<noteq> []"
    by (auto simp: strategy_route_def lookup_def)
  from assms res p pth ne obtain c where c: "costs result end_loc = Some c"
    by (cases "costs result end_loc") (auto simp: strategy_route_def lookup_def bnd_def)
  from assms res p pth ne c obtain t where t: "times result end_loc = Some t"
    by (cases "times result end_loc") (auto simp: strategy_route_def lookup_def bnd_def)
  from assms res p pth ne c t obtain d where d: "distances_km result end_loc = Some d"
    by (cases "distances_km result end_loc") (auto simp: strategy_route_def lookup_def bnd_def)
  from assms res p pth ne c t d
  have "r = \<lparr>strategy = name st, total_cost = fround c 2, total_time = fround t 1,
          total_distance = fround d 2, num_segments = int (length pth) - 1, path = pth\<rparr>"
    by (simp add: strategy_route_def lookup_def bnd_def)
  with res p pth ne c t d show ?thesis by (rule that)
qed

text \<open>Every route of a returned list comes from one of the four searches.\<close>

lemma find_route_origin:
  assumes "find_optimized_routes self s e = Some (Inr es)" and "Route r \<in> set es"
  obtains st where "st \<in> set strategies" "strategy_route self s e st = Some (Inr (Some r))"
    "map_of (locations self) s \<noteq> None" "map_of (locations self) e \<noteq> None" "s \<noteq> e"
proof -
  from assms obtain rs where es: "es = map Route rs" by (rule find_entry_route)
  with assms(2) have r: "r \<in> set rs" by auto
  from assms(1) have found: "find_optimized_routes self s e = Some (Inr (map Route rs))"
    unfolding es .
  from found obtain routes where valid: "map_of (locations self) s \<noteq> None"
    "map_of (locations self) e \<noteq> None" "s \<noteq> e"
    and routes: "all_routes self s e strategies = Some (Inr routes)"
    and rs: "rs = sort_key rank_key (unique_routes routes {})"
    by (rule find_routes_cases)
  from r rs have "r \<in> set (unique_routes routes {})" by simp
  moreover have "set (unique_routes routes {}) \<subseteq> set routes"
    by (rule unique_routes_subset)
  ultimately have "r \<in> set routes" by blast
  with all_routes_from[OF routes] obtain st where "st \<in> set strategies"
    "strategy_route self s e st = Some (Inr (Some r))" by blast
  with valid show ?thesis by (rule_tac that)
qed

section \<open>A network with two alternatives\<close>

text \<open>From \<open>S\<close> to \<open>T\<close>: one dear and fast auto edge, or two cheap and slow bus edges
  through \<open>M\<close>. No edge leaves \<open>T\<close>.\<close>

definition fork :: optimizer where
  "fork =
     \<lparr>graph = [(''S'', [\<lparr>destination = ''T'', mode = ''auto'', time = 5, distance = 5, cost = 40\<rparr>,
                         \<lparr>destination = ''M'', mode = ''bus'', time = 30, distance = 3, cost = 5\<rparr>]),
               (''M'', [\<lparr>destination = ''T'', mode = ''bus'', time = 30, distance = 3, cost = 5\<rparr>])],
      locations = [(''S'', anywhere), (''M'', anywhere), (''T'', anywhere)],
      metro_stations = []\<rparr>"

definition origin :: "string \<Rightarrow> step" where
  "origin l = \<lparr>location = l, step_type = ''junction'', step_mode = ''start'',
               segment_time = 0, segment_cost = 0, segment_distance = 0\<rparr>"

definition fork_direct :: "string \<Rightarrow> route" where
  "fork_direct label =
     \<lparr>strategy = label, total_cost = Fin 40, total_time = Fin 5, total_distance = Fin 5,
      num_segments = 1,
      path = [origin ''S'',
              \<lparr>location = ''T'', step_type = ''junction'', step_mode = ''auto'',
               segment_time = 5, segment_cost = 40, segment_distance = 5\<rparr>]\<rparr>"

definition fork_via :: route where
  "fork_via =
     \<lparr>strategy = ''Cheapest'', total_cost = Fin 10, total_time = Fin 60, total_distance = Fin 6,
      num_segments = 2,
      path = [origin ''S'',
              \<lparr>location = ''M'', step_type = ''junction'', step_mode = ''bus'',
               segment_time = 30, segment_cost = 5, segment_distance = 3\<rparr>,
              \<lparr>location = ''T'', step_type = ''junction'', step_mode = ''bus'',
               segment_time = 30, segment_cost = 5, segment_distance = 3\<rparr>]\<rparr>"

lemma fork_all_routes:
  "all_routes fork ''S'' ''T'' strategies =
     Some (Inr [fork_via, fork_direct ''Fastest'', fork_direct ''Balanced'',
                fork_direct ''Most Convenient''])"
  by code_simp

lemma fork_routes:
  "find_optimized_routes fork ''S'' ''T'' = Some (Inr (map Route [fork_direct ''Fastest'', fork_via]))"
  by code_simp

lemma fork_no_route:
  "find_optimized_routes fork ''T'' ''S'' = Some (Inr (no_route_found ''T'' ''S''))"
  by code_simp

definition demo_step :: "string \<Rightarrow> step" where
  "demo_step l = \<lparr>location = l, step_type = ''junction'', step_mode = ''bus'',
                  segment_time = 1, segment_cost = 1, segment_distance = 1\<rparr>"

definition demo_route :: route where
  "demo_route =
     \<lparr>strategy = ''Cheapest'', total_cost = Fin 4.02, total_time = Fin 4.2,
      total_distance = Fin 4.02, num_segments = 4,
      path = [origin ''A'', demo_step ''B'', demo_step ''C'', demo_step ''D'', demo_step ''E'']\<rparr>"

lemma demo_routes:
  "find_optimized_routes demo ''A'' ''E'' = Some (Inr (map Route [demo_route]))"
  by code_simp

section \<open>Properties of every returned list of routes\<close>

text \<open>
  C4. Every route of a list returned for \<open>start\<close> and \<open>end\<close> has a non-empty path whose
  first step is at \<open>start\<close>, with mode \<open>start\<close> and zero segment cost, time and
  distance, and whose last step is at \<open>end\<close>.
\<close>

theorem route_endpoints:
  assumes "find_optimized_routes self start_location end_location = Some (Inr es)"
    and "Route r \<in> set es"
  shows "path r \<noteq> []
     \<and> location (hd (path r)) = start_location
     \<and> location (last (path r)) = end_location
     \<and> step_mode (hd (path r)) = ''start''
     \<and> segment_cost (hd (path r)) = 0
     \<and> segment_time (hd (path r)) = 0
     \<and> segment_distance (hd (path r)) = 0"
proof -
  from assms obtain st where "strategy_route self start_location end_location st = Some (Inr (Some r))"
    by (rule find_route_origin)
  then obtain result pth where rec: "reconstruct_path self start_location end_location result = Some (Inr pth)"
    and ne: "pth \<noteq> []" and pth: "path r = pth"
    by (rule strategy_route_cases) simp
  from rec ne obtain trail rest s0 sts where
    trail: "follows (previous result) (Some end_location) trail"
    and rev: "rev trail = start_location # rest"
    and s0: "start_step self start_location = Inr s0"
    and sts: "detail_steps self result rest = Inr sts"
    and shape: "pth = s0 # sts"
    by (rule reconstruct_path_cases)
  have locs: "map location pth = rev trail"
    using shape rev start_step_fields[OF s0] detail_steps_locations[OF sts] by simp
  from trail rev obtain more where "trail = end_location # more"
    by (cases trail) auto
  then have "last (rev trail) = end_location" by simp
  then have "location (last pth) = end_location"
    using locs ne by (metis last_map)
  with pth shape start_step_fields[OF s0] show ?thesis by simp
qed

theorem route_endpoints_witness:
  "find_optimized_routes fork ''S'' ''T'' = Some (Inr (map Route [fork_direct ''Fastest'', fork_via]))
   \<and> Route fork_via \<in> set (map Route [fork_direct ''Fastest'', fork_via])
   \<and> path fork_via \<noteq> []
   \<and> location (hd (path fork_via)) = ''S''
   \<and> location (last (path fork_via)) = ''T''
   \<and> step_mode (hd (path fork_via)) = ''start''
   \<and> segment_cost (hd (path fork_via)) = 0
   \<and> segment_time (hd (path fork_via)) = 0
   \<and> segment_distance (hd (path fork_via)) = 0"
  using fork_routes route_endpoints [OF fork_routes, of fork_via]
  by simp

text \<open>
  C5. No two routes of a returned list visit the same sequence of locations. The list keeps
  one route for every sequence some strategy produced, and the route it keeps is the first
  one with that sequence among the routes collected in the order of the strategies
  (Cheapest, Fastest, Balanced, Most Convenient).
\<close>

theorem routes_deduplicated:
  assumes "find_optimized_routes self start_location end_location = Some (Inr (map Route rs))"
  shows "distinct (map path_key rs)
     \<and> (\<exists>routes. all_routes self start_location end_location strategies = Some (Inr routes)
           \<and> subseq (map strategy routes) [''Cheapest'', ''Fastest'', ''Balanced'', ''Most Convenient'']
           \<and> path_key ` set rs = path_key ` set routes
           \<and> (\<forall>r \<in> set rs. find (\<lambda>a. path_key a = path_key r) routes = Some r))"
proof -
  from assms obtain routes where routes: "all_routes self start_location end_location strategies = Some (Inr routes)"
    and rs: "rs = sort_key rank_key (unique_routes routes {})"
    by (rule find_routes_cases)
  have "distinct (map path_key rs)"
    unfolding rs by (simp add: distinct_map_sort_key unique_routes_distinct)
  moreover have "subseq (map strategy routes) [''Cheapest'', ''Fastest'', ''Balanced'', ''Most Convenient'']"
    using all_routes_from[OF routes] by (simp add: strategies_def)
  moreover have "path_key ` set rs = path_key ` set routes"
    unfolding rs by (simp add: unique_routes_keys)
  moreover have "\<forall>r \<in> set rs. find (\<lambda>a. path_key a = path_key r) routes = Some r"
    unfolding rs by (simp add: unique_routes_first)
  ultimately show ?thesis using routes by blast
qed

theorem routes_deduplicated_witness:
  "find_optimized_routes fork ''S'' ''T'' = Some (Inr (map Route [fork_direct ''Fastest'', fork_via]))
   \<and> all_routes fork ''S'' ''T'' strategies =
       Some (Inr [fork_via, fork_direct ''Fastest'', fork_direct ''Balanced'',
                  fork_direct ''Most Convenient''])
   \<and> path_key (fork_direct ''Balanced'') = path_key (fork_direct ''Fastest'')
   \<and> distinct (map path_key [fork_direct ''Fastest'', fork_via])
   \<and> find (\<lambda>a. path_key a = path_key (fork_direct ''Fastest''))
         [fork_via, fork_direct ''Fastest'', fork_direct ''Balanced'', fork_direct ''Most Convenient'']
       = Some (fork_direct ''Fastest'')"
  using fork_routes fork_all_routes routes_deduplicated [OF fork_routes]
  by (simp add: path_key_def fork_direct_def)

text \<open>
  C10. A returned list of routes has between one and four routes, labelled with different
  strategy names, each one of the four names.
\<close>

theorem route_count_and_labels:
  assumes "find_optimized_routes self start_location end_location = Some (Inr (map Route rs))"
  shows "1 \<le> length rs \<and> length rs \<le> 4
     \<and> distinct (map strategy rs)
     \<and> set (map strategy rs) \<subseteq> {''Cheapest'', ''Fastest'', ''Balanced'', ''Most Convenient''}"
proof -
  from assms obtain routes where routes: "all_routes self start_location end_location strategies = Some (Inr routes)"
    and rs: "rs = sort_key rank_key (unique_routes routes {})" and ne: "rs \<noteq> []"
    by (rule find_routes_cases)
  have names: "subseq (map strategy routes) (map name strategies)"
    using all_routes_from[OF routes] by simp
  have "subseq (map strategy (unique_routes routes {})) (map strategy routes)"
    by (rule subseq_map[OF unique_routes_subseq])
  from this names have sub: "subseq (map strategy (unique_routes routes {})) (map name strategies)"
    by (rule subseq_order.trans)
  have d: "distinct (map name strategies)"
    by (simp add: strategies_def)
  have "distinct (map strategy (unique_routes routes {}))"
    by (rule subseq_distinct_mono[OF sub d])
  then have distinct: "distinct (map strategy rs)"
    unfolding rs by (simp add: distinct_map_sort_key)
  have "length (map strategy (unique_routes routes {})) \<le> length (map name strategies)"
    by (rule list_emb_length[OF sub])
  then have len: "length rs \<le> 4"
    unfolding rs by (simp add: strategies_def)
  have "set (map strategy (unique_routes routes {})) \<subseteq> set (map name strategies)"
    by (rule subseq_set_mono[OF sub])
  then have "set (map strategy rs) \<subseteq> {''Cheapest'', ''Fastest'', ''Balanced'', ''Most Convenient''}"
    unfolding rs by (simp add: strategies_def)
  moreover have "1 \<le> length rs"
    using ne by (cases rs) simp_all
  ultimately show ?thesis using distinct len by simp
qed

theorem route_count_and_labels_witness:
  "find_optimized_routes fork ''S'' ''T'' = Some (Inr (map Route [fork_direct ''Fastest'', fork_via]))
   \<and> length [fork_direct ''Fastest'', fork_via] = 2
   \<and> map strategy [fork_direct ''Fastest'', fork_via] = [''Fastest'', ''Cheapest'']"
  using fork_routes route_count_and_labels [OF fork_routes]
  by (simp add: fork_direct_def fork_via_def)

lemma routes_sorted_by_rank_key:
  assumes "find_optimized_routes self start_location end_location = Some (Inr (map Route rs))"
  shows "sorted (map rank_key rs)"
proof -
  from assms obtain routes where "rs = sort_key rank_key (unique_routes routes {})"
    by (rule find_routes_cases)
  then show ?thesis by simp
qed

section \<open>Invariants of the search\<close>

text \<open>The graph invariant of the data model: every edge leads to a catalog location.\<close>

definition well_formed :: "optimizer \<Rightarrow> bool" where
  "well_formed self =
     (\<forall>(u, es) \<in> set (graph self). \<forall>e \<in> set es. map_of (locations self) (destination e) \<noteq> None)"

definition catalog :: "optimizer \<Rightarrow> string set" where
  "catalog self = dom (map_of (locations self))"

text \<open>Every dictionary has exactly the catalog as its keys; heap and closed set stay inside.\<close>

definition dom_inv :: "string set \<Rightarrow> search_state \<Rightarrow> bool" where
  "dom_inv K s =
     (dom (distances s) = K \<and> dom (costs s) = K \<and> dom (times s) = K
      \<and> dom (distances_km s) = K \<and> dom (transfers s) = K \<and> dom (previous s) = K
      \<and> dom (edge_info s) = K \<and> snd ` set (pq s) \<subseteq> K \<and> visited s \<subseteq> K)"

text \<open>The start is closed, has no predecessor and zero accumulators.\<close>

definition root_inv :: "string \<Rightarrow> search_state \<Rightarrow> bool" where
  "root_inv start s =
     (start \<in> visited s \<and> previous s start = Some None \<and> costs s start = Some (Fin 0)
      \<and> times s start = Some (Fin 0) \<and> distances_km s start = Some (Fin 0))"

text \<open>\<open>v\<close> was reached from \<open>u\<close> by its recorded edge: its accumulators are those of \<open>u\<close>
  plus the cost, time and distance of that edge.\<close>

definition linked :: "search_state \<Rightarrow> string \<Rightarrow> string \<Rightarrow> bool" where
  "linked s u v =
     (\<exists>e cu tu du. edge_info s v = Some (Some e)
        \<and> costs s u = Some (Fin cu) \<and> costs s v = Some (Fin (cu + cost e))
        \<and> times s u = Some (Fin tu) \<and> times s v = Some (Fin (tu + time e))
        \<and> distances_km s u = Some (Fin du) \<and> distances_km s v = Some (Fin (du + distance e)))"

definition link_inv :: "search_state \<Rightarrow> bool" where
  "link_inv s = (\<forall>v u. previous s v = Some (Some u) \<longrightarrow> u \<in> visited s \<and> linked s u v)"

text \<open>Whatever is in the heap or closed is the start or has a predecessor.\<close>

definition reach_inv :: "string \<Rightarrow> search_state \<Rightarrow> bool" where
  "reach_inv start s =
     (\<forall>v \<in> snd ` set (pq s) \<union> visited s. v = start \<or> (\<exists>u. previous s v = Some (Some u)))"

text \<open>Closed locations can be numbered so that a predecessor comes before its successor.\<close>

definition rank_inv :: "search_state \<Rightarrow> bool" where
  "rank_inv s =
     (\<exists>idx n. (\<forall>u \<in> visited s. idx u < (n::nat))
        \<and> (\<forall>v u. previous s v = Some (Some u) \<longrightarrow> v \<in> visited s \<longrightarrow> idx u < idx v))"

definition search_inv :: "string set \<Rightarrow> string \<Rightarrow> search_state \<Rightarrow> bool" where
  "search_inv K start s =
     (dom_inv K s \<and> root_inv start s \<and> link_inv s \<and> reach_inv start s \<and> rank_inv s)"

lemma record_best_fields:
  "distances (record_best s v sc c t d tr cur e) = (distances s)(v \<mapsto> Fin sc)"
  "costs (record_best s v sc c t d tr cur e) = (costs s)(v \<mapsto> c)"
  "times (record_best s v sc c t d tr cur e) = (times s)(v \<mapsto> t)"
  "distances_km (record_best s v sc c t d tr cur e) = (distances_km s)(v \<mapsto> d)"
  "transfers (record_best s v sc c t d tr cur e) = (transfers s)(v \<mapsto> tr)"
  "previous (record_best s v sc c t d tr cur e) = (previous s)(v \<mapsto> Some cur)"
  "edge_info (record_best s v sc c t d tr cur e) = (edge_info s)(v \<mapsto> Some e)"
  "pq (record_best s v sc c t d tr cur e) = pq s @ [(sc, v)]"
  "visited (record_best s v sc c t d tr cur e) = visited s"
  by (simp_all add: record_best_def)

lemma dom_inv_best:
  assumes "dom_inv K s" "v \<in> K"
  shows "dom_inv K (record_best s v sc c t d tr cur e)"
  using assms unfolding dom_inv_def record_best_fields by (auto simp: insert_absorb)

lemma root_inv_best:
  assumes "root_inv start s" "v \<notin> visited s"
  shows "root_inv start (record_best s v sc c t d tr cur e)"
proof -
  from assms have "start \<noteq> v" by (auto simp: root_inv_def)
  with assms(1) show ?thesis by (simp add: root_inv_def record_best_fields)
qed

lemma linked_best_other:
  assumes "linked s u w" "u \<noteq> v" "w \<noteq> v"
  shows "linked (record_best s v sc c t d tr cur e) u w"
  using assms by (simp add: linked_def record_best_fields)

lemma linked_best_new:
  assumes "costs s cur = Some (Fin c)" "times s cur = Some (Fin t)"
    "distances_km s cur = Some (Fin d)" "cur \<noteq> v"
  shows "linked (record_best s v sc (fadd (Fin c) (cost e)) (fadd (Fin t) (time e))
           (fadd (Fin d) (distance e)) tr cur e) cur v"
  using assms by (simp add: linked_def record_best_fields)

lemma link_inv_best:
  assumes inv: "link_inv s" and new: "v \<notin> visited s" and cur: "cur \<in> visited s"
    and acc: "costs s cur = Some (Fin c)" "times s cur = Some (Fin t)"
      "distances_km s cur = Some (Fin d)"
  shows "link_inv (record_best s v sc (fadd (Fin c) (cost e)) (fadd (Fin t) (time e))
           (fadd (Fin d) (distance e)) tr cur e)"
  unfolding link_inv_def
proof (intro allI impI)
  fix w u
  let ?s' = "record_best s v sc (fadd (Fin c) (cost e)) (fadd (Fin t) (time e))
           (fadd (Fin d) (distance e)) tr cur e"
  assume prev: "previous ?s' w = Some (Some u)"
  from new cur have ne: "cur \<noteq> v" by auto
  show "u \<in> visited ?s' \<and> linked ?s' u w"
  proof (cases "w = v")
    case True
    with prev have "u = cur" by (simp add: record_best_fields)
    with True cur linked_best_new[OF acc ne] show ?thesis by (simp add: record_best_fields)
  next
    case False
    with prev have old: "previous s w = Some (Some u)" by (simp add: record_best_fields)
    with inv have u: "u \<in> visited s" and l: "linked s u w" by (auto simp: link_inv_def)
    from u new have "u \<noteq> v" by auto
    with linked_best_other[OF l this False] u show ?thesis by (simp add: record_best_fields)
  qed
qed

lemma reach_inv_best:
  assumes "reach_inv start s"
  shows "reach_inv start (record_best s v sc c t d tr cur e)"
  unfolding reach_inv_def
proof
  fix w
  let ?s' = "record_best s v sc c t d tr cur e"
  assume w: "w \<in> snd ` set (pq ?s') \<union> visited ?s'"
  show "w = start \<or> (\<exists>u. previous ?s' w = Some (Some u))"
  proof (cases "w = v")
    case True
    then show ?thesis by (simp add: record_best_fields)
  next
    case False
    with w have "w \<in> snd ` set (pq s) \<union> visited s" by (auto simp: record_best_fields)
    with assms have "w = start \<or> (\<exists>u. previous s w = Some (Some u))"
      unfolding reach_inv_def by blast
    with False show ?thesis by (simp add: record_best_fields)
  qed
qed

lemma rank_inv_best:
  assumes "rank_inv s" "v \<notin> visited s"
  shows "rank_inv (record_best s v sc c t d tr cur e)"
proof -
  from assms(1) obtain idx n where bound: "\<forall>u \<in> visited s. idx u < (n::nat)"
    and ord: "\<forall>w u. previous s w = Some (Some u) \<longrightarrow> w \<in> visited s \<longrightarrow> idx u < idx w"
    unfolding rank_inv_def by blast
  let ?s' = "record_best s v sc c t d tr cur e"
  have new_ord: "\<forall>w u. previous ?s' w = Some (Some u) \<longrightarrow> w \<in> visited ?s' \<longrightarrow> idx u < idx w"
  proof (intro allI impI)
    fix w u assume p: "previous ?s' w = Some (Some u)" and w: "w \<in> visited ?s'"
    from w assms(2) have "w \<noteq> v" by (auto simp: record_best_fields)
    with p have "previous s w = Some (Some u)" by (simp add: record_best_fields)
    with ord w show "idx u < idx w" by (simp add: record_best_fields)
  qed
  have new_bound: "\<forall>u \<in> visited ?s'. idx u < n"
    using bound by (simp add: record_best_fields)
  show ?thesis
    unfolding rank_inv_def using new_bound new_ord by blast
qed

lemma closed_finite:
  assumes "search_inv K start s" "v \<in> visited s"
  obtains c t d where "costs s v = Some (Fin c)" "times s v = Some (Fin t)"
    "distances_km s v = Some (Fin d)"
proof (cases "v = start")
  case True
  with assms(1) have "costs s v = Some (Fin 0)" "times s v = Some (Fin 0)"
    "distances_km s v = Some (Fin 0)"
    by (simp_all add: search_inv_def root_inv_def)
  then show ?thesis by (rule that)
next
  case False
  from assms have "v = start \<or> (\<exists>u. previous s v = Some (Some u))"
    unfolding search_inv_def reach_inv_def by blast
  with False obtain u where "previous s v = Some (Some u)" by blast
  with assms(1) have "linked s u v" by (simp add: search_inv_def link_inv_def)
  then show ?thesis unfolding linked_def by (auto intro: that)
qed

lemma closed_keys:
  assumes "search_inv K start s" "v \<in> visited s"
  obtains tr ei where "transfers s v = Some tr" "edge_info s v = Some ei"
proof -
  from assms have "v \<in> dom (transfers s)" "v \<in> dom (edge_info s)"
    by (auto simp: search_inv_def dom_inv_def)
  then show ?thesis by (auto intro: that)
qed

lemma relax_total:
  assumes inv: "search_inv K start s" and cur: "cur \<in> visited s" and dest: "destination e \<in> K"
  shows "\<exists>s'. relax cw tw conv cur e s = Inr s'"
proof -
  from inv cur obtain c t d where acc: "costs s cur = Some (Fin c)" "times s cur = Some (Fin t)"
    "distances_km s cur = Some (Fin d)" by (rule closed_finite)
  from inv cur obtain tr ei where keys: "transfers s cur = Some tr" "edge_info s cur = Some ei"
    by (rule closed_keys)
  from inv dest have "destination e \<in> dom (distances s)"
    by (simp add: search_inv_def dom_inv_def)
  then obtain dn where dn: "distances s (destination e) = Some dn" by auto
  show ?thesis
    using acc keys dn
    by (simp add: relax_def bnd_def lookup_def Let_def split: pyfloat.split)
qed

lemma relax_inv:
  assumes inv: "search_inv K start s" and cur: "cur \<in> visited s"
    and step: "relax cw tw conv cur e s = Inr s'"
  shows "search_inv K start s' \<and> visited s' = visited s"
  using step
proof (cases rule: relax_cases)
  case same
  with inv show ?thesis by simp
next
  case (best c t d tr ei dn sc)
  from inv cur obtain c' t' d' where acc: "costs s cur = Some (Fin c')" "times s cur = Some (Fin t')"
    "distances_km s cur = Some (Fin d')" by (rule closed_finite)
  with best(2,3,4) have fin: "c = Fin c'" "t = Fin t'" "d = Fin d'" by simp_all
  let ?tr = "if mode_changed ei e then tr + 1 else tr"
  have s': "s' = record_best s (destination e) sc (fadd (Fin c') (cost e)) (fadd (Fin t') (time e))
              (fadd (Fin d') (distance e)) ?tr cur e"
    using best(10) fin by simp
  from inv have parts: "dom_inv K s" "root_inv start s" "link_inv s" "reach_inv start s" "rank_inv s"
    by (simp_all add: search_inv_def)
  from best(7) parts(1) have dest: "destination e \<in> K"
    unfolding dom_inv_def by blast
  have "dom_inv K s'" unfolding s' by (rule dom_inv_best[OF parts(1) dest])
  moreover have "root_inv start s'" unfolding s' by (rule root_inv_best[OF parts(2) best(1)])
  moreover have "link_inv s'" unfolding s' by (rule link_inv_best[OF parts(3) best(1) cur acc])
  moreover have "reach_inv start s'" unfolding s' by (rule reach_inv_best[OF parts(4)])
  moreover have "rank_inv s'" unfolding s' by (rule rank_inv_best[OF parts(5) best(1)])
  moreover have "visited s' = visited s" unfolding s' by (simp add: record_best_fields)
  ultimately show ?thesis by (simp add: search_inv_def)
qed

lemma relax_edges_partial:
  assumes "search_inv K start s" "cur \<in> visited s" "relax_edges cw tw conv cur es s = Inr s'"
  shows "search_inv K start s' \<and> visited s' = visited s"
  using assms
proof (induction es arbitrary: s)
  case Nil
  then show ?case by simp
next
  case (Cons e es)
  from Cons.prems(3) obtain s1 where s1: "relax cw tw conv cur e s = Inr s1"
    and rest: "relax_edges cw tw conv cur es s1 = Inr s'"
    by (rule relax_edges_Cons)
  from relax_inv[OF Cons.prems(1,2) s1] have inv1: "search_inv K start s1"
    and vis1: "visited s1 = visited s" by simp_all
  from Cons.prems(2) vis1 have cur1: "cur \<in> visited s1" by simp
  from Cons.IH[OF inv1 cur1 rest] vis1 show ?case by simp
qed

lemma relax_edges_inv:
  assumes "search_inv K start s" "cur \<in> visited s" "destination ` set es \<subseteq> K"
  shows "\<exists>s'. relax_edges cw tw conv cur es s = Inr s' \<and> search_inv K start s'
           \<and> visited s' = visited s"
  using assms
proof (induction es arbitrary: s)
  case Nil
  then show ?case by simp
next
  case (Cons e es)
  from Cons.prems have dest: "destination e \<in> K" and rest: "destination ` set es \<subseteq> K"
    by simp_all
  from relax_total[OF Cons.prems(1,2) dest] obtain s1 where s1: "relax cw tw conv cur e s = Inr s1"
    by blast
  from relax_inv[OF Cons.prems(1,2) s1] have inv1: "search_inv K start s1"
    and vis1: "visited s1 = visited s" by simp_all
  from Cons.prems(2) vis1 have cur1: "cur \<in> visited s1" by simp
  from Cons.IH[OF inv1 cur1 rest] obtain s' where "relax_edges cw tw conv cur es s1 = Inr s'"
    "search_inv K start s'" "visited s' = visited s1" by blast
  with s1 vis1 show ?case by simp
qed

lemma shrink_inv:
  assumes "search_inv K start s" "set q \<subseteq> set (pq s)"
  shows "search_inv K start (s\<lparr>pq := q\<rparr>)"
proof -
  from assms(2) have "snd ` set q \<subseteq> snd ` set (pq s)"
    by (rule image_mono)
  with assms(1) have "dom_inv K (s\<lparr>pq := q\<rparr>)"
    unfolding search_inv_def dom_inv_def by (simp add: subset_trans)
  moreover from assms have "root_inv start (s\<lparr>pq := q\<rparr>)"
    by (simp add: search_inv_def root_inv_def)
  moreover from assms have "link_inv (s\<lparr>pq := q\<rparr>)"
    by (simp add: search_inv_def link_inv_def linked_def)
  moreover from assms have "reach_inv start (s\<lparr>pq := q\<rparr>)"
    unfolding search_inv_def reach_inv_def by auto
  moreover from assms have "rank_inv (s\<lparr>pq := q\<rparr>)"
    by (simp add: search_inv_def rank_inv_def)
  ultimately show ?thesis by (simp add: search_inv_def)
qed

lemma close_rank_inv:
  assumes "rank_inv s" "link_inv s" "v \<notin> visited s"
  shows "rank_inv (s\<lparr>visited := insert v (visited s)\<rparr>)"
proof -
  from assms(1) obtain idx n where bound: "\<forall>u \<in> visited s. idx u < (n::nat)"
    and ord: "\<forall>w u. previous s w = Some (Some u) \<longrightarrow> w \<in> visited s \<longrightarrow> idx u < idx w"
    unfolding rank_inv_def by blast
  let ?idx = "idx(v := n)"
  let ?s' = "s\<lparr>visited := insert v (visited s)\<rparr>"
  have new_bound: "\<forall>u \<in> visited ?s'. ?idx u < Suc n"
    using bound by (auto simp: less_Suc_eq)
  have new_ord: "\<forall>w u. previous ?s' w = Some (Some u) \<longrightarrow> w \<in> visited ?s' \<longrightarrow> ?idx u < ?idx w"
  proof (intro allI impI)
    fix w u assume p: "previous ?s' w = Some (Some u)" and w: "w \<in> visited ?s'"
    from p have p': "previous s w = Some (Some u)" by simp
    with assms(2) have u: "u \<in> visited s" by (simp add: link_inv_def)
    with assms(3) have uv: "u \<noteq> v" by auto
    show "?idx u < ?idx w"
    proof (cases "w = v")
      case True
      with uv u bound show ?thesis by simp
    next
      case False
      with w have "w \<in> visited s" by simp
      with ord p' uv False show ?thesis by simp
    qed
  qed
  show ?thesis
    unfolding rank_inv_def using new_bound new_ord by blast
qed

lemma close_inv:
  assumes inv: "search_inv K start s" and v: "v \<in> snd ` set (pq s)" and new: "v \<notin> visited s"
  shows "search_inv K start (s\<lparr>visited := insert v (visited s)\<rparr>)"
proof -
  let ?s' = "s\<lparr>visited := insert v (visited s)\<rparr>"
  from inv have parts: "dom_inv K s" "root_inv start s" "link_inv s" "reach_inv start s" "rank_inv s"
    by (simp_all add: search_inv_def)
  from parts(1) v have "dom_inv K ?s'"
    unfolding dom_inv_def by auto
  moreover from parts(2) have "root_inv start ?s'"
    by (simp add: root_inv_def)
  moreover from parts(3) have "link_inv ?s'"
    by (simp add: link_inv_def linked_def)
  moreover from parts(4) v have "reach_inv start ?s'"
    unfolding reach_inv_def by auto
  moreover have "rank_inv ?s'"
    by (rule close_rank_inv[OF parts(5) parts(3) new])
  ultimately show ?thesis by (simp add: search_inv_def)
qed

text \<open>Whenever the loop returns from a state that satisfies the invariant, so does its
  result.\<close>

lemma loop_partial:
  "search_inv K start s \<Longrightarrow> dijkstra_loop self end_loc cw tw conv s = Inr r \<Longrightarrow>
   search_inv K start r"
proof (induction self end_loc cw tw conv s rule: dijkstra_loop.induct)
  case (1 self end_loc cw tw conv s)
  note inv = "1.prems"(1) and res = "1.prems"(2)
  show ?case
  proof (cases "pq s")
    case Nil
    then have "dijkstra_loop self end_loc cw tw conv s = Inr s"
      by (subst dijkstra_loop.simps) simp
    with inv res show ?thesis by simp
  next
    case (Cons x xs)
    define popped where "popped = heap_min x xs"
    define current where "current = snd popped"
    define s1 where "s1 = s\<lparr>pq := remove1 popped (x # xs)\<rparr>"
    define s2 where "s2 = s1\<lparr>visited := insert current (visited s1)\<rparr>"
    have in_pq: "popped \<in> set (pq s)"
      unfolding popped_def Cons by (rule heap_min_in)
    have inv1: "search_inv K start s1"
      unfolding s1_def by (rule shrink_inv[OF inv]) (use Cons set_remove1_subset in fastforce)
    have unfold: "dijkstra_loop self end_loc cw tw conv s =
        (if current \<in> visited s1 then dijkstra_loop self end_loc cw tw conv s1
         else if current = end_loc then Inr s2
         else case map_of (graph self) current of
                None \<Rightarrow> dijkstra_loop self end_loc cw tw conv s2
              | Some edges \<Rightarrow>
                  (case relax_edges cw tw conv current edges s2 of
                     Inl ex \<Rightarrow> Inl ex
                   | Inr s3 \<Rightarrow> dijkstra_loop self end_loc cw tw conv s3))"
      by (subst dijkstra_loop.simps)
         (simp only: Cons list.case Let_def popped_def current_def s1_def s2_def)
    show ?thesis
    proof (cases "current \<in> visited s1")
      case True
      with res unfold have "dijkstra_loop self end_loc cw tw conv s1 = Inr r" by simp
      from "1.IH"(1)[OF Cons popped_def current_def s1_def True inv1 this]
      show ?thesis .
    next
      case False
      have cur_pq: "current \<in> snd ` set (pq s)"
        unfolding current_def using in_pq by simp
      have vis1: "visited s1 = visited s"
        by (simp add: s1_def)
      have inv_closed: "search_inv K start (s\<lparr>visited := insert current (visited s)\<rparr>)"
        by (rule close_inv[OF inv cur_pq]) (use False vis1 in simp)
      have "s2 = (s\<lparr>visited := insert current (visited s)\<rparr>)\<lparr>pq := remove1 popped (x # xs)\<rparr>"
        by (simp add: s2_def s1_def)
      moreover have "set (remove1 popped (x # xs)) \<subseteq> set (pq (s\<lparr>visited := insert current (visited s)\<rparr>))"
        using Cons set_remove1_subset[of popped "x # xs"] by simp
      ultimately have inv2: "search_inv K start s2"
        using shrink_inv[OF inv_closed] by simp
      have cur2: "current \<in> visited s2"
        by (simp add: s2_def)
      show ?thesis
      proof (cases "current = end_loc")
        case True
        with unfold False res inv2 show ?thesis by simp
      next
        case notend: False
        show ?thesis
        proof (cases "map_of (graph self) current")
          case None
          with res unfold False notend have "dijkstra_loop self end_loc cw tw conv s2 = Inr r"
            by simp
          from "1.IH"(2)[OF Cons popped_def current_def s1_def False s2_def notend None inv2 this]
          show ?thesis .
        next
          case (Some edges)
          from res unfold False notend Some obtain s3 where
            s3: "relax_edges cw tw conv current edges s2 = Inr s3"
            and rest: "dijkstra_loop self end_loc cw tw conv s3 = Inr r"
            by (cases "relax_edges cw tw conv current edges s2") simp_all
          from relax_edges_partial[OF inv2 cur2 s3] have inv3: "search_inv K start s3" by simp
          from "1.IH"(3)[OF Cons popped_def current_def s1_def False s2_def notend Some s3 inv3 rest]
          show ?thesis .
        qed
      qed
    qed
  qed
qed

text \<open>From a state that satisfies the invariant the loop returns, without an exception, a
  state that satisfies it.\<close>

lemma loop_inv:
  "(\<forall>u es. map_of (graph self) u = Some es \<longrightarrow> destination ` set es \<subseteq> K) \<Longrightarrow>
   search_inv K start s \<Longrightarrow>
   \<exists>r. dijkstra_loop self end_loc cw tw conv s = Inr r \<and> search_inv K start r"
proof (induction self end_loc cw tw conv s rule: dijkstra_loop.induct)
  case (1 self end_loc cw tw conv s)
  note wf = "1.prems"(1) and inv = "1.prems"(2)
  show ?case
  proof (cases "pq s")
    case Nil
    then have "dijkstra_loop self end_loc cw tw conv s = Inr s"
      by (subst dijkstra_loop.simps) simp
    with inv show ?thesis by simp
  next
    case (Cons x xs)
    define popped where "popped = heap_min x xs"
    define current where "current = snd popped"
    define s1 where "s1 = s\<lparr>pq := remove1 popped (x # xs)\<rparr>"
    define s2 where "s2 = s1\<lparr>visited := insert current (visited s1)\<rparr>"
    have in_pq: "popped \<in> set (pq s)"
      unfolding popped_def Cons by (rule heap_min_in)
    have inv1: "search_inv K start s1"
      unfolding s1_def by (rule shrink_inv[OF inv]) (use Cons set_remove1_subset in fastforce)
    have unfold: "dijkstra_loop self end_loc cw tw conv s =
        (if current \<in> visited s1 then dijkstra_loop self end_loc cw tw conv s1
         else if current = end_loc then Inr s2
         else case map_of (graph self) current of
                None \<Rightarrow> dijkstra_loop self end_loc cw tw conv s2
              | Some edges \<Rightarrow>
                  (case relax_edges cw tw conv current edges s2 of
                     Inl ex \<Rightarrow> Inl ex
                   | Inr s3 \<Rightarrow> dijkstra_loop self end_loc cw tw conv s3))"
      by (subst dijkstra_loop.simps)
         (simp only: Cons list.case Let_def popped_def current_def s1_def s2_def)
    show ?thesis
    proof (cases "current \<in> visited s1")
      case True
      from "1.IH"(1)[OF Cons popped_def current_def s1_def True wf inv1] unfold True
      show ?thesis by simp
    next
      case False
      have cur_pq: "current \<in> snd ` set (pq s)"
        unfolding current_def using in_pq by simp
      have vis1: "visited s1 = visited s" "previous s1 = previous s"
        by (simp_all add: s1_def)
      have inv_closed: "search_inv K start (s\<lparr>visited := insert current (visited s)\<rparr>)"
        by (rule close_inv[OF inv cur_pq]) (use False vis1 in simp)
      have "s2 = (s\<lparr>visited := insert current (visited s)\<rparr>)\<lparr>pq := remove1 popped (x # xs)\<rparr>"
        by (simp add: s2_def s1_def)
      moreover have "set (remove1 popped (x # xs)) \<subseteq> set (pq (s\<lparr>visited := insert current (visited s)\<rparr>))"
        using Cons set_remove1_subset[of popped "x # xs"] by simp
      ultimately have inv2: "search_inv K start s2"
        using shrink_inv[OF inv_closed] by simp
      have cur2: "current \<in> visited s2"
        by (simp add: s2_def)
      show ?thesis
      proof (cases "current = end_loc")
        case True
        with unfold False inv2 show ?thesis by simp
      next
        case notend: False
        show ?thesis
        proof (cases "map_of (graph self) current")
          case None
          from "1.IH"(2)[OF Cons popped_def current_def s1_def False s2_def notend None wf inv2]
            unfold False notend None
          show ?thesis by simp
        next
          case (Some edges)
          with wf have "destination ` set edges \<subseteq> K" by blast
          from relax_edges_inv[OF inv2 cur2 this] obtain s3 where
            s3: "relax_edges cw tw conv current edges s2 = Inr s3" and inv3: "search_inv K start s3"
            by blast
          from "1.IH"(3)[OF Cons popped_def current_def s1_def False s2_def notend Some s3 wf inv3]
            unfold False notend Some s3
          show ?thesis by simp
        qed
      qed
    qed
  qed
qed

lemma well_formed_dest:
  assumes "well_formed self" "map_of (graph self) u = Some es"
  shows "destination ` set es \<subseteq> catalog self"
proof -
  from assms(2) have "(u, es) \<in> set (graph self)" by (rule map_of_SomeD)
  with assms(1) have "\<forall>e \<in> set es. map_of (locations self) (destination e) \<noteq> None"
    unfolding well_formed_def by blast
  then show ?thesis unfolding catalog_def by auto
qed

text \<open>The state after the first round has popped and closed the start.\<close>

definition opened :: "optimizer \<Rightarrow> string \<Rightarrow> search_state" where
  "opened self start = (initial_state self start)\<lparr>pq := [], visited := {start}\<rparr>"

lemma initial_previous:
  "previous (initial_state self start) v = (if v \<in> catalog self then Some None else None)"
  by (auto simp: initial_state_def catalog_def)

lemma opened_inv:
  assumes "start \<in> catalog self"
  shows "search_inv (catalog self) start (opened self start)"
proof -
  let ?s = "opened self start"
  have doms: "dom (\<lambda>loc. map_option f (map_of (locations self) loc)) = catalog self" for f :: "location \<Rightarrow> 'a"
    by (auto simp: catalog_def dom_def)
  have "dom_inv (catalog self) ?s"
    unfolding dom_inv_def opened_def initial_state_def using assms
    by (simp add: doms insert_absorb)
  moreover have "root_inv start ?s"
    using assms by (simp add: root_inv_def opened_def initial_previous) (simp add: initial_state_def)
  moreover have "link_inv ?s"
    by (simp add: link_inv_def opened_def initial_previous)
  moreover have "reach_inv start ?s"
    by (simp add: reach_inv_def opened_def)
  moreover have "rank_inv ?s"
    unfolding rank_inv_def
  proof (intro exI conjI)
    show "\<forall>u \<in> visited ?s. (\<lambda>_. 0::nat) u < 1" by simp
    show "\<forall>v u. previous ?s v = Some (Some u) \<longrightarrow> v \<in> visited ?s \<longrightarrow> (\<lambda>_. 0::nat) u < (\<lambda>_. 0) v"
      by (simp add: opened_def initial_previous)
  qed
  ultimately show ?thesis by (simp add: search_inv_def)
qed

lemma dijkstra_first_round:
  "dijkstra self start end_loc cw tw conv =
     (if start = end_loc then Inr (opened self start)
      else case map_of (graph self) start of
             None \<Rightarrow> dijkstra_loop self end_loc cw tw conv (opened self start)
           | Some edges \<Rightarrow>
               (case relax_edges cw tw conv start edges (opened self start) of
                  Inl ex \<Rightarrow> Inl ex
                | Inr s3 \<Rightarrow> dijkstra_loop self end_loc cw tw conv s3))"
  unfolding dijkstra_def
  by (subst dijkstra_loop.simps)
     (simp add: initial_state_def opened_def Let_def cong: option.case_cong sum.case_cong)

text \<open>On a well-formed network a search from a catalog location raises no exception, and
  its result satisfies the invariant.\<close>

lemma dijkstra_inv:
  assumes wf: "well_formed self" and start: "start \<in> catalog self"
  shows "\<exists>r. dijkstra self start end_loc cw tw conv = Inr r \<and> search_inv (catalog self) start r"
proof -
  note inv0 = opened_inv[OF start]
  have wf': "\<forall>u es. map_of (graph self) u = Some es \<longrightarrow> destination ` set es \<subseteq> catalog self"
    using well_formed_dest[OF wf] by blast
  show ?thesis
  proof (cases "start = end_loc")
    case True
    with inv0 show ?thesis by (simp add: dijkstra_first_round)
  next
    case False
    show ?thesis
    proof (cases "map_of (graph self) start")
      case None
      with False loop_inv[OF wf' inv0] show ?thesis by (simp add: dijkstra_first_round)
    next
      case (Some edges)
      have cur: "start \<in> visited (opened self start)" by (simp add: opened_def)
      from relax_edges_inv[OF inv0 cur well_formed_dest[OF wf Some]] obtain s3 where
        s3: "relax_edges cw tw conv start edges (opened self start) = Inr s3"
        and inv3: "search_inv (catalog self) start s3" by blast
      from loop_inv[OF wf' inv3] False Some s3 show ?thesis by (simp add: dijkstra_first_round)
    qed
  qed
qed

text \<open>Whatever the network, a search from a catalog location that returns satisfies the
  invariant.\<close>

lemma dijkstra_partial:
  assumes start: "start \<in> catalog self"
    and res: "dijkstra self start end_loc cw tw conv = Inr r"
  shows "search_inv (catalog self) start r"
proof -
  note inv0 = opened_inv[OF start]
  show ?thesis
  proof (cases "start = end_loc")
    case True
    with inv0 res show ?thesis by (simp add: dijkstra_first_round)
  next
    case False
    show ?thesis
    proof (cases "map_of (graph self) start")
      case None
      with False res have "dijkstra_loop self end_loc cw tw conv (opened self start) = Inr r"
        by (simp add: dijkstra_first_round)
      from loop_partial[OF inv0 this] show ?thesis .
    next
      case (Some edges)
      have cur: "start \<in> visited (opened self start)" by (simp add: opened_def)
      from res False Some obtain s3 where
        s3: "relax_edges cw tw conv start edges (opened self start) = Inr s3"
        and rest: "dijkstra_loop self end_loc cw tw conv s3 = Inr r"
        by (cases "relax_edges cw tw conv start edges (opened self start)")
           (simp_all add: dijkstra_first_round)
      from relax_edges_partial[OF inv0 cur s3] have "search_inv (catalog self) start s3" by simp
      from loop_partial[OF this rest] show ?thesis .
    qed
  qed
qed

section \<open>Totals and segments\<close>

lemma round_half_even_near: "\<bar>of_int (round_half_even x) - x\<bar> \<le> 1 / 2"
proof -
  have "of_int \<lfloor>x\<rfloor> \<le> x" "x < of_int \<lfloor>x\<rfloor> + 1"
    by linarith+
  then show ?thesis
    unfolding round_half_even_def Let_def by (auto simp: abs_le_iff)
qed

lemma py_round_near: "\<bar>py_round x n - x\<bar> \<le> 1 / (2 * 10 ^ n)"
proof -
  have pos: "(0::real) < 10 ^ n" by simp
  have "py_round x n - x = (of_int (round_half_even (x * 10 ^ n)) - x * 10 ^ n) / 10 ^ n"
    unfolding py_round_def using pos by (simp add: field_simps)
  then have "\<bar>py_round x n - x\<bar> = \<bar>of_int (round_half_even (x * 10 ^ n)) - x * 10 ^ n\<bar> / 10 ^ n"
    using pos by (simp add: abs_divide)
  also have "\<dots> \<le> (1 / 2) / 10 ^ n"
    by (rule divide_right_mono[OF round_half_even_near]) simp
  also have "\<dots> = 1 / (2 * 10 ^ n)"
    by simp
  finally show ?thesis .
qed

lemma near_sum:
  assumes "\<And>x. \<bar>g x - x\<bar> \<le> (h::real)"
  shows "\<bar>sum_list (map (\<lambda>e. g (f e)) es) - sum_list (map f es)\<bar> \<le> real (length es) * h"
proof (induction es)
  case Nil
  then show ?case by simp
next
  case (Cons e es)
  have "\<bar>sum_list (map (\<lambda>e. g (f e)) (e # es)) - sum_list (map f (e # es))\<bar>
      \<le> \<bar>g (f e) - f e\<bar> + \<bar>sum_list (map (\<lambda>e. g (f e)) es) - sum_list (map f es)\<bar>"
    by simp
  also have "\<dots> \<le> h + real (length es) * h"
    using assms[of "f e"] Cons.IH by linarith
  finally show ?case by (simp add: algebra_simps)
qed

lemma near_total:
  assumes "\<And>x. \<bar>g x - x\<bar> \<le> (h::real)"
  shows "\<bar>sum_list (map (\<lambda>e. g (f e)) es) - g (sum_list (map f es))\<bar> \<le> (real (length es) + 1) * h"
proof -
  have "\<bar>sum_list (map (\<lambda>e. g (f e)) es) - g (sum_list (map f es))\<bar>
      \<le> \<bar>sum_list (map (\<lambda>e. g (f e)) es) - sum_list (map f es)\<bar>
        + \<bar>g (sum_list (map f es)) - sum_list (map f es)\<bar>"
    by simp
  also have "\<dots> \<le> real (length es) * h + h"
    using near_sum[OF assms, of f es] assms[of "sum_list (map f es)"] by linarith
  finally show ?thesis by (simp add: algebra_simps)
qed

text \<open>The rounded total of a sum is within half a unit per summand, and half a unit more,
  of the sum of the rounded summands.\<close>

lemma rounded_total_near:
  "\<bar>sum_list (map (\<lambda>e. py_round (f e) n) es) - py_round (sum_list (map f es)) n\<bar>
     \<le> (real (length es) + 1) * (1 / (2 * 10 ^ n))"
  by (rule near_total[where g = "\<lambda>x. py_round x n"]) (rule py_round_near)

text \<open>Along a chain of predecessors that ends at the start, the accumulators of a location
  are the sums over the recorded edges of the chain.\<close>

lemma chain_totals:
  assumes link: "link_inv r" and root: "root_inv start r"
  shows "follows (previous r) (Some v) trail \<Longrightarrow> last trail = start \<Longrightarrow>
     \<exists>es. list_all2 (\<lambda>loc e. edge_info r loc = Some (Some e)) (butlast trail) es
       \<and> costs r v = Some (Fin (sum_list (map cost es)))
       \<and> times r v = Some (Fin (sum_list (map time es)))
       \<and> distances_km r v = Some (Fin (sum_list (map distance es)))"
proof (induction trail arbitrary: v)
  case Nil
  then show ?case by simp
next
  case (Cons l ls)
  from Cons.prems(1) obtain p where v: "v = l" and p: "previous r l = Some p"
    and rest: "follows (previous r) p ls"
    by (auto split: option.splits)
  show ?case
  proof (cases ls)
    case Nil
    with Cons.prems(2) have "l = start" by simp
    with v root have "costs r v = Some (Fin 0)" "times r v = Some (Fin 0)"
      "distances_km r v = Some (Fin 0)"
      by (simp_all add: root_inv_def)
    with Nil show ?thesis by simp
  next
    case (Cons w ws)
    with rest have pw: "p = Some w" by simp
    from Cons Cons.prems(2) have last: "last ls = start" by simp
    from rest pw have "follows (previous r) (Some w) ls" by simp
    from Cons.IH[OF this last] obtain es where
      es: "list_all2 (\<lambda>loc e. edge_info r loc = Some (Some e)) (butlast ls) es"
      and cw: "costs r w = Some (Fin (sum_list (map cost es)))"
      and tw: "times r w = Some (Fin (sum_list (map time es)))"
      and dw: "distances_km r w = Some (Fin (sum_list (map distance es)))"
      by blast
    from link p pw have "linked r w l" by (simp add: link_inv_def)
    then obtain e where e: "edge_info r l = Some (Some e)"
      and cl: "costs r l = Some (Fin (sum_list (map cost es) + cost e))"
      and tl: "times r l = Some (Fin (sum_list (map time es) + time e))"
      and dl: "distances_km r l = Some (Fin (sum_list (map distance es) + distance e))"
      unfolding linked_def using cw tw dw by auto
    have "list_all2 (\<lambda>loc e. edge_info r loc = Some (Some e)) (butlast (l # ls)) (e # es)"
      using Cons e es by simp
    moreover have "costs r v = Some (Fin (sum_list (map cost (e # es))))"
      "times r v = Some (Fin (sum_list (map time (e # es))))"
      "distances_km r v = Some (Fin (sum_list (map distance (e # es))))"
      using v cl tl dl by (simp_all add: add.commute)
    ultimately show ?thesis by blast
  qed
qed

lemma detail_steps_segments:
  "detail_steps self r locs = Inr sts \<Longrightarrow>
   list_all2 (\<lambda>loc e. edge_info r loc = Some (Some e)) locs es \<Longrightarrow>
     map segment_cost sts = map (\<lambda>e. py_round (cost e) 2) es
     \<and> map segment_time sts = map (\<lambda>e. py_round (time e) 1) es
     \<and> map segment_distance sts = map (\<lambda>e. py_round (distance e) 2) es"
proof (induction locs arbitrary: sts es)
  case Nil
  then show ?case by simp
next
  case (Cons loc locs)
  from Cons.prems(1) obtain st rest where st: "detail_step self r loc = Inr st"
    and rest: "detail_steps self r locs = Inr rest" and sts: "sts = st # rest"
    by (rule detail_steps_Cons)
  from Cons.prems(2) obtain e es' where es: "es = e # es'"
    and e: "edge_info r loc = Some (Some e)"
    and es': "list_all2 (\<lambda>loc e. edge_info r loc = Some (Some e)) locs es'"
    by (cases es) auto
  from st e have "segment_cost st = py_round (cost e) 2" "segment_time st = py_round (time e) 1"
    "segment_distance st = py_round (distance e) 2"
    by (auto simp: detail_step_def bnd_def lookup_def split: option.splits)
  with Cons.IH[OF rest es'] sts es show ?case by simp
qed

text \<open>A returned route, in terms of the edges along it: every step after the first shows
  the rounded values of its edge, and the totals are the rounded sums of the exact values.\<close>

lemma route_edges:
  assumes "find_optimized_routes self s e = Some (Inr es)" and "Route r \<in> set es"
  obtains edges :: "edge list" where "length (path r) = length edges + 1"
    "total_cost r = Fin (py_round (sum_list (map cost edges)) 2)"
    "total_time r = Fin (py_round (sum_list (map time edges)) 1)"
    "total_distance r = Fin (py_round (sum_list (map distance edges)) 2)"
    "map segment_cost (path r) = 0 # map (\<lambda>e. py_round (cost e) 2) edges"
    "map segment_time (path r) = 0 # map (\<lambda>e. py_round (time e) 1) edges"
    "map segment_distance (path r) = 0 # map (\<lambda>e. py_round (distance e) 2) edges"
proof -
  from assms obtain st where st: "strategy_route self s e st = Some (Inr (Some r))"
    and start: "map_of (locations self) s \<noteq> None"
    by (rule find_route_origin)
  from st obtain result p pth c t d where
    res: "dijkstra self s e (cost_weight st) (time_weight st) (convenience_weight st) = Inr result"
    and rec: "reconstruct_path self s e result = Some (Inr pth)" and ne: "pth \<noteq> []"
    and c: "costs result e = Some c" and t: "times result e = Some t"
    and d: "distances_km result e = Some d"
    and r: "r = \<lparr>strategy = name st, total_cost = fround c 2, total_time = fround t 1,
          total_distance = fround d 2, num_segments = int (length pth) - 1, path = pth\<rparr>"
    by (rule strategy_route_cases)
  from rec ne obtain trail rest s0 sts where
    trail: "follows (previous result) (Some e) trail"
    and rev: "rev trail = s # rest"
    and s0: "start_step self s = Inr s0"
    and sts: "detail_steps self result rest = Inr sts"
    and shape: "pth = s0 # sts"
    by (rule reconstruct_path_cases)
  from start have "s \<in> catalog self" by (auto simp: catalog_def)
  from dijkstra_partial[OF this res] have link: "link_inv result" and root: "root_inv s result"
    by (simp_all add: search_inv_def)
  from rev have tr: "trail = rev rest @ [s]"
    by (metis rev_rev_ident rev.simps(2))
  then have last: "last trail = s" and but: "butlast trail = rev rest" by simp_all
  from chain_totals[OF link root trail last] obtain chain where
    chain: "list_all2 (\<lambda>loc e. edge_info result loc = Some (Some e)) (butlast trail) chain"
    and cc: "costs result e = Some (Fin (sum_list (map cost chain)))"
    and tc: "times result e = Some (Fin (sum_list (map time chain)))"
    and dc: "distances_km result e = Some (Fin (sum_list (map distance chain)))"
    by blast
  define edges where "edges = rev chain"
  from chain but have "list_all2 (\<lambda>loc e. edge_info result loc = Some (Some e)) (rev rest) (rev edges)"
    by (simp add: edges_def)
  then have along: "list_all2 (\<lambda>loc e. edge_info result loc = Some (Some e)) rest edges"
    by (simp only: list_all2_rev)
  note seg = detail_steps_segments[OF sts along]
  have len: "length sts = length edges"
    using seg by (metis length_map)
  have sums: "sum_list (map cost chain) = sum_list (map cost edges)"
    "sum_list (map time chain) = sum_list (map time edges)"
    "sum_list (map distance chain) = sum_list (map distance edges)"
    by (simp_all add: edges_def rev_map[symmetric] sum_list_rev)
  have fin: "c = Fin (sum_list (map cost edges))" "t = Fin (sum_list (map time edges))"
    "d = Fin (sum_list (map distance edges))"
    using c t d cc tc dc sums by simp_all
  have "length (path r) = length edges + 1"
    using r shape len by simp
  moreover have "total_cost r = Fin (py_round (sum_list (map cost edges)) 2)"
    "total_time r = Fin (py_round (sum_list (map time edges)) 1)"
    "total_distance r = Fin (py_round (sum_list (map distance edges)) 2)"
    unfolding r fin by simp_all
  moreover have "map segment_cost (path r) = 0 # map (\<lambda>e. py_round (cost e) 2) edges"
    "map segment_time (path r) = 0 # map (\<lambda>e. py_round (time e) 1) edges"
    "map segment_distance (path r) = 0 # map (\<lambda>e. py_round (distance e) 2) edges"
    using r shape seg start_step_fields[OF s0] by simp_all
  ultimately show ?thesis by (rule that)
qed

text \<open>The sum of the rounded summands and the rounded sum are both multiples of the unit
  \<open>10\<^sup>-\<^sup>n\<close>, so they differ by a whole number of units: at most half the number of
  roundings, rounded down.\<close>

lemma sum_list_py_round:
  "sum_list (map (\<lambda>e. py_round (f e) n) es)
     = of_int (sum_list (map (\<lambda>e. round_half_even (f e * 10 ^ n)) es)) / 10 ^ n"
  by (induction es) (simp_all add: py_round_def add_divide_distrib)

lemma units_bound:
  fixes u k :: real and m :: int
  assumes "0 < u" and "\<bar>of_int m / u\<bar> \<le> (k + 1) * (1 / (2 * u))"
  shows "2 * \<bar>real_of_int m\<bar> \<le> k + 1"
proof -
  from assms have "\<bar>real_of_int m\<bar> / u \<le> ((k + 1) / 2) / u"
    by (simp add: abs_divide)
  with assms(1) have "\<bar>real_of_int m\<bar> \<le> (k + 1) / 2"
    by (simp only: divide_le_cancel)
  then show ?thesis by simp
qed

lemma rounded_total_units:
  "\<bar>sum_list (map (\<lambda>e. py_round (f e) n) es) - py_round (sum_list (map f es)) n\<bar>
     \<le> real ((length es + 1) div 2) / 10 ^ n"
proof -
  define m where "m = sum_list (map (\<lambda>e. round_half_even (f e * 10 ^ n)) es)
                      - round_half_even (sum_list (map f es) * 10 ^ n)"
  have pos: "(0::real) < 10 ^ n" by simp
  have diff: "sum_list (map (\<lambda>e. py_round (f e) n) es) - py_round (sum_list (map f es)) n
      = of_int m / 10 ^ n"
  proof -
    have "py_round (sum_list (map f es)) n
        = of_int (round_half_even (sum_list (map f es) * 10 ^ n)) / 10 ^ n"
      by (simp add: py_round_def)
    then show ?thesis
      by (simp only: sum_list_py_round m_def of_int_diff diff_divide_distrib)
  qed
  have "\<bar>of_int m / (10::real) ^ n\<bar> \<le> (real (length es) + 1) * (1 / (2 * 10 ^ n))"
    using rounded_total_near[of f n es] unfolding diff .
  from units_bound[OF pos this] have "2 * \<bar>real_of_int m\<bar> \<le> real (length es) + 1" .
  then have "real_of_int (2 * \<bar>m\<bar>) \<le> real_of_int (int (length es) + 1)"
    by simp
  then have "2 * \<bar>m\<bar> \<le> int (length es) + 1"
    by (simp only: of_int_le_iff)
  then have "\<bar>m\<bar> \<le> int ((length es + 1) div 2)"
    by linarith
  then have "real_of_int \<bar>m\<bar> \<le> real_of_int (int ((length es + 1) div 2))"
    by (simp only: of_int_le_iff)
  then have "\<bar>real_of_int m\<bar> \<le> real ((length es + 1) div 2)"
    by simp
  then have "\<bar>real_of_int m\<bar> / 10 ^ n \<le> real ((length es + 1) div 2) / 10 ^ n"
    by (rule divide_right_mono) simp
  then show ?thesis unfolding diff by (simp add: abs_divide)
qed

text \<open>
  For every route of a returned list the totals are finite, and the sum of the segment
  costs differs from the total cost by at most \<open>\<lfloor>n / 2\<rfloor>\<close> hundredths, the sum of the
  segment times from the total time by at most \<open>\<lfloor>n / 2\<rfloor>\<close> tenths, and the sum of the
  segment distances from the total distance by at most \<open>\<lfloor>n / 2\<rfloor>\<close> hundredths, where
  \<open>n\<close> is the number of steps of the route: every step after the first and the total are
  each rounded on their own. For a route of at most three steps this is one hundredth, one
  tenth and one hundredth.
\<close>

lemma segment_sums_bound:
  assumes "find_optimized_routes self start_location end_location = Some (Inr es)"
    and "Route r \<in> set es"
  shows "\<exists>c t d. total_cost r = Fin c \<and> total_time r = Fin t \<and> total_distance r = Fin d
     \<and> \<bar>sum_list (map segment_cost (path r)) - c\<bar> \<le> real (length (path r) div 2) / 100
     \<and> \<bar>sum_list (map segment_time (path r)) - t\<bar> \<le> real (length (path r) div 2) / 10
     \<and> \<bar>sum_list (map segment_distance (path r)) - d\<bar> \<le> real (length (path r) div 2) / 100"
proof -
  from assms obtain edges :: "edge list" where len: "length (path r) = length edges + 1"
    and totals: "total_cost r = Fin (py_round (sum_list (map cost edges)) 2)"
      "total_time r = Fin (py_round (sum_list (map time edges)) 1)"
      "total_distance r = Fin (py_round (sum_list (map distance edges)) 2)"
    and segs: "map segment_cost (path r) = 0 # map (\<lambda>e. py_round (cost e) 2) edges"
      "map segment_time (path r) = 0 # map (\<lambda>e. py_round (time e) 1) edges"
      "map segment_distance (path r) = 0 # map (\<lambda>e. py_round (distance e) 2) edges"
    by (rule route_edges)
  have "\<bar>sum_list (map segment_cost (path r)) - py_round (sum_list (map cost edges)) 2\<bar>
      \<le> real (length (path r) div 2) / 100"
    using rounded_total_units[of cost 2 edges] unfolding segs len by simp
  moreover have "\<bar>sum_list (map segment_time (path r)) - py_round (sum_list (map time edges)) 1\<bar>
      \<le> real (length (path r) div 2) / 10"
    using rounded_total_units[of time 1 edges] unfolding segs len by simp
  moreover have "\<bar>sum_list (map segment_distance (path r)) - py_round (sum_list (map distance edges)) 2\<bar>
      \<le> real (length (path r) div 2) / 100"
    using rounded_total_units[of distance 2 edges] unfolding segs len by simp
  ultimately show ?thesis using totals by blast
qed

text \<open>
  C6. The routes of a returned list have finite totals, and the values
  \<open>0.6 * total_cost + 0.4 * total_time\<close>, taken in the order of the list, ascend.
\<close>

lemma sorted_map_Fin: "sorted (map Fin ks) = sorted ks"
  by (induction ks) (auto simp: less_eq_pyfloat_def)

theorem routes_ranked:
  assumes "find_optimized_routes self start_location end_location = Some (Inr (map Route rs))"
  shows "\<exists>ks. sorted ks
     \<and> list_all2 (\<lambda>r k. \<exists>c t. total_cost r = Fin c \<and> total_time r = Fin t
                          \<and> k = 0.6 * c + 0.4 * t) rs ks"
proof -
  have fin: "\<exists>c t. total_cost r = Fin c \<and> total_time r = Fin t \<and> rank_key r = Fin (0.6 * c + 0.4 * t)"
    if "r \<in> set rs" for r
  proof -
    from that have "Route r \<in> set (map Route rs)" by simp
    with assms obtain edges :: "edge list" where
      "total_cost r = Fin (py_round (sum_list (map cost edges)) 2)"
      "total_time r = Fin (py_round (sum_list (map time edges)) 1)"
      by (rule route_edges)
    then show ?thesis by (simp add: rank_key_def)
  qed
  define key where "key r = (case rank_key r of Fin k \<Rightarrow> k | PInf \<Rightarrow> 0)" for r
  have key_fin: "\<forall>r \<in> set rs. rank_key r = Fin (key r)"
  proof
    fix r assume "r \<in> set rs"
    from fin[OF this] obtain k where "rank_key r = Fin k" by blast
    then show "rank_key r = Fin (key r)" by (simp add: key_def)
  qed
  have key_val: "\<forall>r \<in> set rs. \<exists>c t. total_cost r = Fin c \<and> total_time r = Fin t
      \<and> key r = 0.6 * c + 0.4 * t"
  proof
    fix r assume r: "r \<in> set rs"
    from fin[OF r] obtain c t where "total_cost r = Fin c" "total_time r = Fin t"
      "rank_key r = Fin (0.6 * c + 0.4 * t)" by blast
    moreover from this(3) have "key r = 0.6 * c + 0.4 * t" by (simp add: key_def)
    ultimately show "\<exists>c t. total_cost r = Fin c \<and> total_time r = Fin t \<and> key r = 0.6 * c + 0.4 * t"
      by blast
  qed
  have keys: "map rank_key rs = map Fin (map key rs)"
    using key_fin by simp
  have "sorted (map rank_key rs)"
    by (rule routes_sorted_by_rank_key[OF assms])
  then have "sorted (map key rs)"
    unfolding keys by (simp only: sorted_map_Fin)
  moreover have "list_all2 (\<lambda>r k. \<exists>c t. total_cost r = Fin c \<and> total_time r = Fin t
                          \<and> k = 0.6 * c + 0.4 * t) rs (map key rs)"
    unfolding list_all2_map2 list_all2_same using key_val .
  ultimately show ?thesis by blast
qed

theorem routes_ranked_witness:
  "find_optimized_routes fork ''S'' ''T'' = Some (Inr (map Route [fork_direct ''Fastest'', fork_via]))
   \<and> total_cost (fork_direct ''Fastest'') = Fin 40 \<and> total_time (fork_direct ''Fastest'') = Fin 5
   \<and> total_cost fork_via = Fin 10 \<and> total_time fork_via = Fin 60
   \<and> sorted [0.6 * 40 + 0.4 * 5, 0.6 * 10 + 0.4 * (60::real)]"
  using fork_routes routes_ranked [OF fork_routes]
  by (simp add: fork_direct_def fork_via_def)

section \<open>The query always answers on a well-formed network\<close>

text \<open>From a closed location the chain of predecessors leads to the start.\<close>

lemma closed_chain:
  assumes inv: "search_inv K start r"
  shows "v \<in> visited r \<Longrightarrow>
    \<exists>trail. follows (previous r) (Some v) trail \<and> last trail = start \<and> trail \<noteq> [] \<and> set trail \<subseteq> K"
proof -
  from inv have root: "root_inv start r" and link: "link_inv r" and reach: "reach_inv start r"
    and doms: "dom_inv K r" and "rank_inv r"
    by (simp_all add: search_inv_def)
  then obtain idx :: "string \<Rightarrow> nat" where
    ord: "\<forall>w u. previous r w = Some (Some u) \<longrightarrow> w \<in> visited r \<longrightarrow> idx u < idx w"
    unfolding rank_inv_def by blast
  show "v \<in> visited r \<Longrightarrow>
    \<exists>trail. follows (previous r) (Some v) trail \<and> last trail = start \<and> trail \<noteq> [] \<and> set trail \<subseteq> K"
  proof (induction "idx v" arbitrary: v rule: less_induct)
    case less
    from less.prems doms have vK: "v \<in> K" unfolding dom_inv_def by blast
    show ?case
    proof (cases "v = start")
      case True
      with root have "previous r v = Some None" by (simp add: root_inv_def)
      then have "follows (previous r) (Some v) [v]" by simp
      with True vK show ?thesis by (intro exI[of _ "[v]"]) simp
    next
      case False
      with reach less.prems obtain u where u: "previous r v = Some (Some u)"
        unfolding reach_inv_def by blast
      with link have uv: "u \<in> visited r" by (simp add: link_inv_def)
      from ord u less.prems have "idx u < idx v" by blast
      from less.hyps[OF this uv] obtain trail where
        t: "follows (previous r) (Some u) trail" "last trail = start" "trail \<noteq> []" "set trail \<subseteq> K"
        by blast
      from u t(1) have "follows (previous r) (Some v) (v # trail)" by simp
      with t vK show ?thesis by (intro exI[of _ "v # trail"]) simp
    qed
  qed
qed

lemma reached_chain:
  assumes inv: "search_inv K start r" and prev: "previous r v = Some (Some p)"
  shows "\<exists>trail. follows (previous r) (Some v) trail \<and> last trail = start \<and> trail \<noteq> []
           \<and> set trail \<subseteq> K"
proof -
  from inv prev have p: "p \<in> visited r" by (simp add: search_inv_def link_inv_def)
  from prev have "v \<in> dom (previous r)" by auto
  with inv have vK: "v \<in> K" by (simp add: search_inv_def dom_inv_def)
  from closed_chain[OF inv p] obtain trail where
    t: "follows (previous r) (Some p) trail" "last trail = start" "trail \<noteq> []" "set trail \<subseteq> K"
    by blast
  from prev t(1) have "follows (previous r) (Some v) (v # trail)" by simp
  with t vK show ?thesis by (intro exI[of _ "v # trail"]) simp
qed

lemma detail_step_total:
  assumes "loc \<in> dom (edge_info r)" "loc \<in> catalog self"
  shows "\<exists>st. detail_step self r loc = Inr st"
proof -
  from assms obtain ei l where "edge_info r loc = Some ei" "map_of (locations self) loc = Some l"
    by (auto simp: catalog_def)
  then show ?thesis
    by (cases ei) (simp_all add: detail_step_def bnd_def lookup_def)
qed

lemma detail_steps_total:
  assumes "set locs \<subseteq> dom (edge_info r)" "set locs \<subseteq> catalog self"
  shows "\<exists>sts. detail_steps self r locs = Inr sts"
  using assms
proof (induction locs)
  case Nil
  then show ?case by simp
next
  case (Cons loc locs)
  from Cons.prems detail_step_total[of loc r self] obtain st where "detail_step self r loc = Inr st"
    by auto
  moreover from Cons obtain sts where "detail_steps self r locs = Inr sts" by auto
  ultimately show ?case by (simp add: bnd_def)
qed

lemma reconstruct_path_total:
  assumes inv: "search_inv (catalog self) start r" and prev: "previous r end_loc = Some (Some p)"
  shows "\<exists>pth. reconstruct_path self start end_loc r = Some (Inr pth) \<and> pth \<noteq> []"
proof -
  from reached_chain[OF inv prev] obtain trail where
    t: "follows (previous r) (Some end_loc) trail" "last trail = start" "trail \<noteq> []"
       "set trail \<subseteq> catalog self"
    by blast
  from follows_walk_back[OF t(1), of "[]"]
  have walk: "walk_back (previous r) (Some end_loc) [] = Some (Inr trail)" by simp
  from t(2,3) obtain rest where rev: "rev trail = start # rest"
    by (cases trail rule: rev_cases) auto
  from t(2,3,4) have "start \<in> catalog self" by (metis last_in_set subsetD)
  then obtain l where "map_of (locations self) start = Some l"
    by (auto simp: catalog_def)
  then obtain s0 where s0: "start_step self start = Inr s0"
    by (simp add: start_step_def bnd_def lookup_def)
  from rev have "set rest \<subseteq> set trail"
    by (metis set_rev set_subset_Cons)
  with t(4) have in_cat: "set rest \<subseteq> catalog self" by blast
  moreover from inv have "dom (edge_info r) = catalog self"
    by (simp add: search_inv_def dom_inv_def)
  ultimately obtain sts where sts: "detail_steps self r rest = Inr sts"
    using detail_steps_total[of rest r self] by auto
  have "reconstruct_path self start end_loc r = Some (Inr (s0 # sts))"
    by (simp add: reconstruct_path_def walk rev s0 sts bnd_def)
  then show ?thesis by simp
qed

text \<open>A strategy fails to reach the destination when its search ends with no predecessor
  recorded for the destination.\<close>

definition unreached :: "optimizer \<Rightarrow> string \<Rightarrow> string \<Rightarrow> weights \<Rightarrow> bool" where
  "unreached self start end_loc st =
     (case dijkstra self start end_loc (cost_weight st) (time_weight st) (convenience_weight st) of
        Inl ex \<Rightarrow> False
      | Inr r \<Rightarrow> previous r end_loc = Some None)"

lemma strategy_route_total:
  assumes wf: "well_formed self" and s: "start \<in> catalog self" and e: "end_loc \<in> catalog self"
  shows "(unreached self start end_loc st \<and> strategy_route self start end_loc st = Some (Inr None))
     \<or> (\<not> unreached self start end_loc st
          \<and> (\<exists>route. strategy_route self start end_loc st = Some (Inr (Some route))))"
proof -
  from dijkstra_inv[OF wf s] obtain r where
    r: "dijkstra self start end_loc (cost_weight st) (time_weight st) (convenience_weight st) = Inr r"
    and inv: "search_inv (catalog self) start r"
    by blast
  from inv have doms: "dom (previous r) = catalog self" "dom (costs r) = catalog self"
    "dom (times r) = catalog self" "dom (distances_km r) = catalog self"
    by (simp_all add: search_inv_def dom_inv_def)
  with e obtain pe c t d where pe: "previous r end_loc = Some pe"
    and acc: "costs r end_loc = Some c" "times r end_loc = Some t" "distances_km r end_loc = Some d"
    by (metis domD)
  show ?thesis
  proof (cases pe)
    case None
    with r pe show ?thesis
      by (simp add: unreached_def strategy_route_def lookup_def)
  next
    case (Some p)
    with pe have prev: "previous r end_loc = Some (Some p)" by simp
    from reconstruct_path_total[OF inv prev] obtain pth where
      "reconstruct_path self start end_loc r = Some (Inr pth)" "pth \<noteq> []" by blast
    with r prev acc show ?thesis
      by (simp add: unreached_def strategy_route_def lookup_def bnd_def)
  qed
qed

lemma all_routes_total:
  assumes wf: "well_formed self" and s: "start \<in> catalog self" and e: "end_loc \<in> catalog self"
  shows "\<exists>rs. all_routes self start end_loc sts = Some (Inr rs)
           \<and> (rs = [] \<longleftrightarrow> (\<forall>st \<in> set sts. unreached self start end_loc st))"
proof (induction sts)
  case Nil
  then show ?case by simp
next
  case (Cons st sts)
  then obtain rs where rs: "all_routes self start end_loc sts = Some (Inr rs)"
    and empty: "rs = [] \<longleftrightarrow> (\<forall>st \<in> set sts. unreached self start end_loc st)"
    by blast
  from strategy_route_total[OF wf s e, of st] show ?case
  proof
    assume "unreached self start end_loc st \<and> strategy_route self start end_loc st = Some (Inr None)"
    with rs empty show ?thesis by simp
  next
    assume "\<not> unreached self start end_loc st
          \<and> (\<exists>route. strategy_route self start end_loc st = Some (Inr (Some route)))"
    with rs show ?thesis by auto
  qed
qed

lemma unique_routes_empty: "unique_routes rs {} = [] \<longleftrightarrow> rs = []"
  by (cases rs) simp_all

lemma sort_key_empty: "sort_key f xs = [] \<longleftrightarrow> xs = []"
  by (metis length_sort length_0_conv)

lemma find_valid:
  assumes wf: "well_formed self" and s: "map_of (locations self) start_location \<noteq> None"
    and e: "map_of (locations self) end_location \<noteq> None" and ne: "start_location \<noteq> end_location"
  shows "((\<forall>st \<in> set strategies. unreached self start_location end_location st)
          \<longrightarrow> find_optimized_routes self start_location end_location
                = Some (Inr (no_route_found start_location end_location)))
     \<and> (\<not> (\<forall>st \<in> set strategies. unreached self start_location end_location st)
          \<longrightarrow> (\<exists>rs. rs \<noteq> [] \<and> find_optimized_routes self start_location end_location
                = Some (Inr (map Route rs))))"
proof -
  from s e have cat: "start_location \<in> catalog self" "end_location \<in> catalog self"
    by (auto simp: catalog_def)
  from all_routes_total[OF wf cat, of strategies] obtain routes where
    routes: "all_routes self start_location end_location strategies = Some (Inr routes)"
    and empty: "routes = [] \<longleftrightarrow> (\<forall>st \<in> set strategies. unreached self start_location end_location st)"
    by blast
  define unique where "unique = sort_key rank_key (unique_routes routes {})"
  have u: "unique = [] \<longleftrightarrow> routes = []"
    by (simp add: unique_def sort_key_empty unique_routes_empty)
  from s e obtain ls le where known: "map_of (locations self) start_location = Some ls"
    "map_of (locations self) end_location = Some le" by auto
  have res: "find_optimized_routes self start_location end_location =
      (if unique = [] then Some (Inr (no_route_found start_location end_location))
       else Some (Inr (map Route unique)))"
    unfolding find_optimized_routes_def
    by (simp add: known ne routes no_route_found_def unique_def Let_def)
  show ?thesis
    using res u empty by auto
qed

text \<open>
  C2. On a well-formed network the query returns: the error for the start name when it is
  not in the catalog; else the error for the end name when it is not in the catalog; else
  the error of identical endpoints when they are equal; in these three cases whatever the
  graph is, which no search reads; else the error naming both endpoints when all four
  strategies leave the destination without a predecessor; and in every other case a
  non-empty list of routes. It never raises and never runs forever.
\<close>

theorem query_outcomes:
  assumes "well_formed self"
  shows "(map_of (locations self) start_location = None \<longrightarrow>
           (\<forall>g. find_optimized_routes (self\<lparr>graph := g\<rparr>) start_location end_location
                  = Some (Inr (start_not_found start_location))))
     \<and> (map_of (locations self) start_location \<noteq> None \<and> map_of (locations self) end_location = None \<longrightarrow>
           (\<forall>g. find_optimized_routes (self\<lparr>graph := g\<rparr>) start_location end_location
                  = Some (Inr (end_not_found end_location))))
     \<and> (map_of (locations self) start_location \<noteq> None \<and> map_of (locations self) end_location \<noteq> None
          \<and> start_location = end_location \<longrightarrow>
           (\<forall>g. find_optimized_routes (self\<lparr>graph := g\<rparr>) start_location end_location
                  = Some (Inr same_endpoints)))
     \<and> (map_of (locations self) start_location \<noteq> None \<and> map_of (locations self) end_location \<noteq> None
          \<and> start_location \<noteq> end_location
          \<and> (\<forall>st \<in> set strategies. unreached self start_location end_location st) \<longrightarrow>
           find_optimized_routes self start_location end_location
             = Some (Inr (no_route_found start_location end_location)))
     \<and> (map_of (locations self) start_location \<noteq> None \<and> map_of (locations self) end_location \<noteq> None
          \<and> start_location \<noteq> end_location
          \<and> \<not> (\<forall>st \<in> set strategies. unreached self start_location end_location st) \<longrightarrow>
           (\<exists>rs. rs \<noteq> [] \<and> find_optimized_routes self start_location end_location
                  = Some (Inr (map Route rs))))"
proof (intro conjI impI allI)
  fix g
  assume "map_of (locations self) start_location = None"
  then show "find_optimized_routes (self\<lparr>graph := g\<rparr>) start_location end_location
                  = Some (Inr (start_not_found start_location))"
    by (simp add: find_optimized_routes_def start_not_found_def)
next
  fix g
  assume "map_of (locations self) start_location \<noteq> None \<and> map_of (locations self) end_location = None"
  then show "find_optimized_routes (self\<lparr>graph := g\<rparr>) start_location end_location
                  = Some (Inr (end_not_found end_location))"
    by (simp add: find_optimized_routes_def end_not_found_def)
next
  fix g
  assume "map_of (locations self) start_location \<noteq> None \<and> map_of (locations self) end_location \<noteq> None
          \<and> start_location = end_location"
  then show "find_optimized_routes (self\<lparr>graph := g\<rparr>) start_location end_location
                  = Some (Inr same_endpoints)"
    by (simp add: find_optimized_routes_def same_endpoints_def)
next
  assume a: "map_of (locations self) start_location \<noteq> None \<and> map_of (locations self) end_location \<noteq> None
          \<and> start_location \<noteq> end_location
          \<and> (\<forall>st \<in> set strategies. unreached self start_location end_location st)"
  then have "map_of (locations self) start_location \<noteq> None" "map_of (locations self) end_location \<noteq> None"
    "start_location \<noteq> end_location" by simp_all
  from find_valid[OF assms this] a
  show "find_optimized_routes self start_location end_location
             = Some (Inr (no_route_found start_location end_location))" by blast
next
  assume a: "map_of (locations self) start_location \<noteq> None \<and> map_of (locations self) end_location \<noteq> None
          \<and> start_location \<noteq> end_location
          \<and> \<not> (\<forall>st \<in> set strategies. unreached self start_location end_location st)"
  then have "map_of (locations self) start_location \<noteq> None" "map_of (locations self) end_location \<noteq> None"
    "start_location \<noteq> end_location" by simp_all
  from find_valid[OF assms this] a
  show "\<exists>rs. rs \<noteq> [] \<and> find_optimized_routes self start_location end_location
                  = Some (Inr (map Route rs))" by blast
qed

lemma fork_well_formed: "well_formed fork"
  by (simp add: well_formed_def fork_def)

lemma fork_unreached: "list_all (unreached fork ''T'' ''S'') strategies"
  by code_simp

lemma fork_reached: "\<not> unreached fork ''S'' ''T'' (hd strategies)"
  by code_simp

theorem query_outcomes_witness:
  "well_formed fork
   \<and> map_of (locations fork) ''X'' = None
   \<and> find_optimized_routes (fork\<lparr>graph := []\<rparr>) ''X'' ''T'' = Some (Inr (start_not_found ''X''))
   \<and> map_of (locations fork) ''S'' \<noteq> None
   \<and> find_optimized_routes (fork\<lparr>graph := []\<rparr>) ''S'' ''X'' = Some (Inr (end_not_found ''X''))
   \<and> find_optimized_routes (fork\<lparr>graph := []\<rparr>) ''S'' ''S'' = Some (Inr same_endpoints)
   \<and> map_of (locations fork) ''T'' \<noteq> None
   \<and> list_all (unreached fork ''T'' ''S'') strategies
   \<and> find_optimized_routes fork ''T'' ''S'' = Some (Inr (no_route_found ''T'' ''S''))
   \<and> \<not> unreached fork ''S'' ''T'' (hd strategies)
   \<and> (\<exists>rs. rs \<noteq> [] \<and> find_optimized_routes fork ''S'' ''T'' = Some (Inr (map Route rs)))"
  using fork_well_formed fork_unreached fork_reached
    query_outcomes [OF fork_well_formed, of "''X''" "''T''"]
    query_outcomes [OF fork_well_formed, of "''S''" "''X''"]
    query_outcomes [OF fork_well_formed, of "''S''" "''S''"]
    query_outcomes [OF fork_well_formed, of "''T''" "''S''"]
    query_outcomes [OF fork_well_formed, of "''S''" "''T''"]
  by (simp add: fork_def list_all_iff strategies_def)

section \<open>The network builder\<close>

text \<open>\<^verbatim>\<open>_add_edge\<close>: append the edge dictionary to \<^verbatim>\<open>self.graph[from_loc]\<close>; the
  \<^verbatim>\<open>defaultdict\<close> creates the list on the first access.\<close>

definition add_edge :: "optimizer \<Rightarrow> string \<Rightarrow> string \<Rightarrow> string \<Rightarrow> real \<Rightarrow> real \<Rightarrow> real \<Rightarrow> optimizer" where
  "add_edge self from_loc to_loc m t d c =
     (let e = \<lparr>destination = to_loc, mode = m, time = t, distance = d, cost = c\<rparr>
      in self\<lparr>graph :=
           (case map_of (graph self) from_loc of
              None \<Rightarrow> graph self @ [(from_loc, [e])]
            | Some es \<Rightarrow> AList.update from_loc (es @ [e]) (graph self))\<rparr>)"

text \<open>\<^verbatim>\<open>math.radians\<close> and \<^verbatim>\<open>_haversine_distance\<close>. Over the reals the argument of the
  square root lies between 0 and 1, so neither \<^verbatim>\<open>math.sqrt\<close> nor \<^verbatim>\<open>math.asin\<close>
  raises.\<close>

definition radians :: "real \<Rightarrow> real" where
  "radians x = x * pi / 180"

definition haversine_distance :: "real \<Rightarrow> real \<Rightarrow> real \<Rightarrow> real \<Rightarrow> real" where
  "haversine_distance lat1 lon1 lat2 lon2 =
     (let R = 6371;
          lat1_rad = radians lat1;
          lat2_rad = radians lat2;
          dlat = radians (lat2 - lat1);
          dlon = radians (lon2 - lon1);
          a = (sin (dlat / 2))\<^sup>2 + cos lat1_rad * cos lat2_rad * (sin (dlon / 2))\<^sup>2;
          c = 2 * arcsin (sqrt a)
      in R * c)"

definition metro_data :: "(string \<times> real \<times> real \<times> string) list" where
  "metro_data =
     [(''Aluva Metro'', 10.1082, 76.3520, ''Zone 3''),
      (''Pulinchodu Metro'', 10.1012, 76.3445, ''Zone 3''),
      (''Companypady Metro'', 10.0942, 76.3370, ''Zone 3''),
      (''Ambattukavu Metro'', 10.0872, 76.3295, ''Zone 2''),
      (''Muttom Metro'', 10.0802, 76.3220, ''Zone 2''),
      (''Kalamassery Metro'', 10.0732, 76.3145, ''Zone 2''),
      (''Cusat Metro'', 10.0662, 76.3070, ''Zone 2''),
      (''Pathadipalam Metro'', 10.0592, 76.2995, ''Zone 2''),
      (''Edapally Metro'', 10.0522, 76.2920, ''Zone 2''),
      (''Changampuzha Park Metro'', 10.0452, 76.2845, ''Zone 2''),
      (''Palarivattom Metro'', 10.0382, 76.2770, ''Zone 2''),
      (''J.L.N Stadium Metro'', 10.0312, 76.2695, ''Zone 2''),
      (''Kaloor Metro'', 10.0242, 76.2620, ''Zone 2''),
      (''Lissie Metro'', 10.0172, 76.2545, ''Zone 1''),
      (''M.G Road Metro'', 10.0102, 76.2470, ''Zone 1''),
      (''Maharajas Metro'', 10.0032, 76.2395, ''Zone 1''),
      (''Ernakulam South Metro'', 9.9962, 76.2320, ''Zone 1''),
      (''Kadavanthra Metro'', 9.9892, 76.2245, ''Zone 2''),
      (''Elamkulam Metro'', 9.9822, 76.2170, ''Zone 2''),
      (''Vyttila Metro'', 9.9752, 76.2095, ''Zone 2''),
      (''Thaikoodam Metro'', 9.9682, 76.2020, ''Zone 3''),
      (''Petta Metro'', 9.9612, 76.1945, ''Zone 3''),
      (''Thripunithura Metro'', 9.9542, 76.1870, ''Zone 3'')]"

text \<open>The first loop of \<^verbatim>\<open>_build_metro_network\<close>: one location record and one
  \<^verbatim>\<open>metro_stations\<close> entry per station.\<close>

definition add_station :: "optimizer \<Rightarrow> string \<times> real \<times> real \<times> string \<Rightarrow> optimizer" where
  "add_station self entry =
     (case entry of (station, la, lo, z) \<Rightarrow>
        self\<lparr>locations := AList.update station
                 \<lparr>lat = la, lon = lo, loc_type = ''metro_station'', zone = z\<rparr> (locations self),
             metro_stations := AList.update station (la, lo) (metro_stations self)\<rparr>)"

text \<open>The second loop, \<^verbatim>\<open>for i in range(len(stations_list) - 1)\<close>: the two stations are
  read from \<^verbatim>\<open>self.locations\<close>, and a metro edge is added in each direction.\<close>

fun connect_stations :: "optimizer \<Rightarrow> string list \<Rightarrow> nat list \<Rightarrow> exn + optimizer" where
  "connect_stations self stations_list [] = Inr self"
| "connect_stations self stations_list (i # rest) =
     (let station1 = stations_list ! i;
          station2 = stations_list ! (i + 1)
      in bnd (lookup (map_of (locations self)) station1) (\<lambda>l1.
         bnd (lookup (map_of (locations self)) station2) (\<lambda>l2.
           let t = 2.5;
               d = haversine_distance (lat l1) (lon l1) (lat l2) (lon l2);
               c = 5
           in connect_stations
                (add_edge (add_edge self station1 station2 ''metro'' t d c)
                   station2 station1 ''metro'' t d c)
                stations_list rest)))"

definition build_metro_network :: "optimizer \<Rightarrow> exn + optimizer" where
  "build_metro_network self =
     (let self1 = foldl add_station self metro_data;
          stations_list = map fst metro_data
      in connect_stations self1 stations_list [0 ..< length stations_list - 1])"

definition popular_places :: "(string \<times> real \<times> real \<times> string) list" where
  "popular_places =
     [(''Aluva Town'', 10.1100, 76.3550, ''residential''),
      (''Kalamassery Town'', 10.0750, 76.3200, ''residential''),
      (''Edapally Market'', 10.0540, 76.2950, ''commercial''),
      (''Kakkanad Infopark'', 10.0150, 76.3450, ''commercial''),
      (''Palarivattom Junction'', 10.0400, 76.2800, ''junction''),
      (''M.G Road Market'', 10.0120, 76.2500, ''commercial''),
      (''Marine Drive'', 9.9750, 76.2800, ''tourist''),
      (''Ernakulam South Bus Stand'', 9.9980, 76.2350, ''transport_hub''),
      (''Fort Kochi'', 9.9650, 76.2420, ''tourist''),
      (''Vyttila Hub'', 9.9770, 76.3100, ''transport_hub''),
      (''Kakkanad Seaport Airport Road'', 10.0050, 76.3350, ''commercial''),
      (''Thripunithura Town'', 9.9560, 76.1900, ''residential''),
      (''Medical Trust Hospital Edapally'', 10.0510, 76.2880, ''hospital''),
      (''Lakeshore Hospital Kochi'', 9.9800, 76.2950, ''hospital''),
      (''Amrita Hospital Kochi'', 10.0430, 76.3100, ''hospital''),
      (''CUSAT Campus'', 10.0650, 76.3050, ''educational''),
      (''Rajagiri College Kakkanad'', 10.0200, 76.3400, ''educational''),
      (''Lulu Mall Edapally'', 10.0450, 76.3000, ''mall''),
      (''Oberon Mall'', 10.0340, 76.2780, ''mall''),
      (''Centre Square Mall'', 9.9880, 76.2880, ''mall'')]"

definition add_place :: "optimizer \<Rightarrow> string \<times> real \<times> real \<times> string \<Rightarrow> optimizer" where
  "add_place self entry =
     (case entry of (place, la, lo, ty) \<Rightarrow>
        self\<lparr>locations := AList.update place
                 \<lparr>lat = la, lon = lo, loc_type = ty, zone = ''N/A''\<rparr> (locations self)\<rparr>)"

definition add_popular_locations :: "optimizer \<Rightarrow> optimizer" where
  "add_popular_locations self = foldl add_place self popular_places"

text \<open>\<^verbatim>\<open>_find_nearest_metro_stations\<close>; \<^verbatim>\<open>list.sort\<close> is stable, as \<open>sort_key\<close> is.\<close>

definition find_nearest_metro_stations :: "optimizer \<Rightarrow> string \<Rightarrow> nat \<Rightarrow> (string \<times> real) list" where
  "find_nearest_metro_stations self loc k =
     (case map_of (locations self) loc of
        None \<Rightarrow> []
      | Some loc_data \<Rightarrow>
          take k (sort_key snd
            (map (\<lambda>(station, la, lo).
                    (station, haversine_distance (lat loc_data) (lon loc_data) la lo))
                 (metro_stations self))))"

text \<open>The body of \<^verbatim>\<open>for station, distance_km in nearest_stations\<close>.\<close>

definition connect_to_station :: "string \<Rightarrow> optimizer \<Rightarrow> string \<times> real \<Rightarrow> optimizer" where
  "connect_to_station loc self near =
     (case near of (station, distance_km) \<Rightarrow>
        let self1 =
              (if distance_km < 1.5
               then add_edge (add_edge self loc station ''walk'' (distance_km * 15) distance_km (distance_km * 5))
                      station loc ''walk'' (distance_km * 15) distance_km (distance_km * 5)
               else self);
            self2 =
              (if distance_km < 15
               then add_edge (add_edge self1 loc station ''auto'' (distance_km * 3) distance_km (20 + distance_km * 12))
                      station loc ''auto'' (distance_km * 3) distance_km (20 + distance_km * 12)
               else self1)
        in if 1.0 < distance_km \<and> distance_km < 10
           then add_edge (add_edge self2 loc station ''bus'' (distance_km * 4) distance_km (10 + distance_km * 3))
                  station loc ''bus'' (distance_km * 4) distance_km (10 + distance_km * 3)
           else self2)"

definition connect_location :: "optimizer \<Rightarrow> string \<times> location \<Rightarrow> optimizer" where
  "connect_location self entry =
     (case entry of (loc, loc_data) \<Rightarrow>
        if loc_type loc_data = ''metro_station'' then self
        else foldl (connect_to_station loc) self (find_nearest_metro_stations self loc 3))"

definition connect_locations_to_metro :: "optimizer \<Rightarrow> optimizer" where
  "connect_locations_to_metro self = foldl connect_location self (locations self)"

text \<open>The inner body of \<^verbatim>\<open>_add_direct_connections\<close>, for one pair of places.\<close>

definition connect_pair :: "string \<times> location \<Rightarrow> optimizer \<Rightarrow> string \<times> location \<Rightarrow> optimizer" where
  "connect_pair first self second =
     (case first of (loc1, data1) \<Rightarrow> case second of (loc2, data2) \<Rightarrow>
        let d = haversine_distance (lat data1) (lon data1) (lat data2) (lon data2);
            self1 =
              (if d < 10
               then add_edge (add_edge self loc1 loc2 ''auto'' (d * 3) d (20 + d * 12))
                      loc2 loc1 ''auto'' (d * 3) d (20 + d * 12)
               else self)
        in if d < 1.5
           then add_edge (add_edge self1 loc1 loc2 ''walk'' (d * 15) d (d * 5))
                  loc2 loc1 ''walk'' (d * 15) d (d * 5)
           else self1)"

text \<open>\<^verbatim>\<open>for i, (loc1, data1) in enumerate(locations_list): for loc2, data2 in locations_list[i+1:]\<close>.\<close>

fun connect_pairs :: "optimizer \<Rightarrow> (string \<times> location) list \<Rightarrow> optimizer" where
  "connect_pairs self [] = self"
| "connect_pairs self (first # rest) = connect_pairs (foldl (connect_pair first) self rest) rest"

definition add_direct_connections :: "optimizer \<Rightarrow> optimizer" where
  "add_direct_connections self =
     connect_pairs self (filter (\<lambda>(name, data). loc_type data \<noteq> ''metro_station'') (locations self))"

text \<open>\<^verbatim>\<open>__init__\<close>.\<close>

definition init :: "exn + optimizer" where
  "init =
     bnd (build_metro_network \<lparr>graph = [], locations = [], metro_stations = []\<rparr>) (\<lambda>self1.
       Inr (add_direct_connections (connect_locations_to_metro (add_popular_locations self1))))"

section \<open>The built network\<close>

definition all_edges :: "optimizer \<Rightarrow> (string \<times> edge) set" where
  "all_edges self = {(u, e). \<exists>es. map_of (graph self) u = Some es \<and> e \<in> set es}"

definition station_location :: "string \<times> real \<times> real \<times> string \<Rightarrow> string \<times> location" where
  "station_location entry =
     (case entry of (station, la, lo, z) \<Rightarrow>
        (station, \<lparr>lat = la, lon = lo, loc_type = ''metro_station'', zone = z\<rparr>))"

definition place_location :: "string \<times> real \<times> real \<times> string \<Rightarrow> string \<times> location" where
  "place_location entry =
     (case entry of (place, la, lo, ty) \<Rightarrow>
        (place, \<lparr>lat = la, lon = lo, loc_type = ty, zone = ''N/A''\<rparr>))"

text \<open>The metro edge added for the stations \<open>s1\<close> and \<open>s2\<close>, in this order in the line, towards \<open>dst\<close>.\<close>

definition metro_edge :: "string \<times> real \<times> real \<times> string \<Rightarrow> string \<times> real \<times> real \<times> string \<Rightarrow> string \<Rightarrow> edge" where
  "metro_edge s1 s2 dst =
     (case s1 of (n1, la1, lo1, z1) \<Rightarrow> case s2 of (n2, la2, lo2, z2) \<Rightarrow>
        \<lparr>destination = dst, mode = ''metro'', time = 2.5,
         distance = haversine_distance la1 lo1 la2 lo2, cost = 5\<rparr>)"

text \<open>An edge of one of the three other modes between \<open>a\<close> and \<open>b\<close>, \<open>d\<close> kilometres apart.\<close>

definition connector :: "real \<Rightarrow> string \<Rightarrow> string \<Rightarrow> string \<Rightarrow> edge \<Rightarrow> bool" where
  "connector d a b u e =
     (((u = a \<and> destination e = b) \<or> (u = b \<and> destination e = a)) \<and> distance e = d
      \<and> ((mode e = ''walk'' \<and> d < 1.5 \<and> time e = d * 15 \<and> cost e = d * 5)
         \<or> (mode e = ''auto'' \<and> d < 15 \<and> time e = d * 3 \<and> cost e = 20 + d * 12)
         \<or> (mode e = ''bus'' \<and> 1 < d \<and> d < 10 \<and> time e = d * 4 \<and> cost e = 10 + d * 3)))"

text \<open>\<open>grows Q self self'\<close>: \<open>self'\<close> is \<open>self\<close> with more edges, each new one satisfying \<open>Q\<close>.\<close>

definition grows :: "(string \<Rightarrow> edge \<Rightarrow> bool) \<Rightarrow> optimizer \<Rightarrow> optimizer \<Rightarrow> bool" where
  "grows Q self self' =
     (locations self' = locations self \<and> metro_stations self' = metro_stations self
      \<and> (distinct (map fst (graph self)) \<longrightarrow> distinct (map fst (graph self')))
      \<and> all_edges self \<subseteq> all_edges self'
      \<and> (\<forall>(u, e) \<in> all_edges self'. (u, e) \<in> all_edges self \<or> Q u e))"

lemma growsD:
  assumes "grows Q a b"
  shows "locations b = locations a" and "metro_stations b = metro_stations a"
    and "distinct (map fst (graph a)) \<Longrightarrow> distinct (map fst (graph b))"
    and "all_edges a \<subseteq> all_edges b"
    and "(u, e) \<in> all_edges b \<Longrightarrow> (u, e) \<in> all_edges a \<or> Q u e"
  using assms unfolding grows_def by blast+

lemma grows_refl: "grows Q self self"
  by (auto simp: grows_def)

lemma grows_trans: "grows Q a b \<Longrightarrow> grows Q b c \<Longrightarrow> grows Q a c"
  unfolding grows_def by (intro conjI; (simp; fail | blast | fastforce))

lemma grows_mono: "grows Q a b \<Longrightarrow> (\<And>u e. Q u e \<Longrightarrow> Q' u e) \<Longrightarrow> grows Q' a b"
  unfolding grows_def by fastforce

lemma add_edge_fields:
  "locations (add_edge self u v m t d c) = locations self"
  "metro_stations (add_edge self u v m t d c) = metro_stations self"
  by (simp_all add: add_edge_def Let_def)

lemma add_edge_edges:
  "all_edges (add_edge self u v m t d c)
   = insert (u, \<lparr>destination = v, mode = m, time = t, distance = d, cost = c\<rparr>) (all_edges self)"
proof (cases "map_of (graph self) u")
  case None
  then show ?thesis
    by (auto simp: all_edges_def add_edge_def Let_def map_add_def split: option.splits if_splits)
next
  case (Some es)
  then show ?thesis
    by (auto simp: all_edges_def add_edge_def Let_def update_conv' split: if_splits)
qed

lemma add_edge_distinct:
  assumes "distinct (map fst (graph self))"
  shows "distinct (map fst (graph (add_edge self u v m t d c)))"
proof (cases "map_of (graph self) u")
  case None
  then have "u \<notin> fst ` set (graph self)"
    by (simp add: map_of_eq_None_iff)
  with assms None show ?thesis
    by (simp add: add_edge_def Let_def)
next
  case (Some es)
  with assms show ?thesis
    by (simp add: add_edge_def Let_def distinct_update)
qed

lemma grows_add_edge:
  assumes "Q u \<lparr>destination = v, mode = m, time = t, distance = d, cost = c\<rparr>"
  shows "grows Q self (add_edge self u v m t d c)"
  using assms by (auto simp: grows_def add_edge_fields add_edge_edges add_edge_distinct)

lemma grows_add_both:
  assumes "Q u \<lparr>destination = v, mode = m, time = t, distance = d, cost = c\<rparr>"
    and "Q v \<lparr>destination = u, mode = m, time = t, distance = d, cost = c\<rparr>"
  shows "grows Q self (add_edge (add_edge self u v m t d c) v u m t d c)"
  using assms by (blast intro: grows_trans grows_add_edge)

lemma grows_foldl:
  assumes "\<And>a x. x \<in> set xs \<Longrightarrow> grows Q self a \<Longrightarrow> grows Q a (f a x)"
  shows "grows Q self (foldl f self xs)"
proof -
  have "grows Q self a \<Longrightarrow> set ys \<subseteq> set xs \<Longrightarrow> grows Q self (foldl f a ys)" for a ys
  proof (induction ys arbitrary: a)
    case Nil
    then show ?case by simp
  next
    case (Cons y ys)
    from Cons.prems have "grows Q a (f a y)"
      using assms by simp
    with Cons.prems have "grows Q self (f a y)"
      by (blast intro: grows_trans)
    with Cons show ?case by simp
  qed
  then show ?thesis
    using grows_refl by blast
qed


subsection \<open>The metro line\<close>

lemma foldl_add_station:
  "foldl add_station \<lparr>graph = [], locations = [], metro_stations = []\<rparr> metro_data
   = \<lparr>graph = [], locations = map station_location metro_data,
      metro_stations = map (\<lambda>(n, la, lo, z). (n, la, lo)) metro_data\<rparr>"
  by (simp add: metro_data_def add_station_def station_location_def)

lemma metro_names_distinct: "distinct (map fst metro_data)"
  by (simp add: metro_data_def)

lemma length_metro_data: "length metro_data = 23"
  by (simp add: metro_data_def)

lemma fst_station_location: "fst (station_location x) = fst x"
  by (cases x) (simp add: station_location_def)

lemma station_lookup:
  assumes "i < 23"
  shows "map_of (map station_location metro_data) (fst (metro_data ! i))
         = Some (snd (station_location (metro_data ! i)))"
proof -
  have "distinct (map fst (map station_location metro_data))"
    using metro_names_distinct by (simp add: comp_def fst_station_location)
  moreover have "station_location (metro_data ! i) \<in> set (map station_location metro_data)"
    using assms by (simp add: length_metro_data)
  ultimately have "map_of (map station_location metro_data) (fst (station_location (metro_data ! i)))
         = Some (snd (station_location (metro_data ! i)))"
    by (metis map_of_is_SomeI prod.collapse)
  then show ?thesis
    by (simp add: fst_station_location)
qed

definition metro_links :: "nat \<Rightarrow> (string \<times> edge) set" where
  "metro_links i =
     {(fst (metro_data ! i), metro_edge (metro_data ! i) (metro_data ! Suc i) (fst (metro_data ! Suc i))),
      (fst (metro_data ! Suc i), metro_edge (metro_data ! i) (metro_data ! Suc i) (fst (metro_data ! i)))}"

lemma metro_edge_station:
  "metro_edge x y dst =
     \<lparr>destination = dst, mode = ''metro'', time = 2.5,
      distance = haversine_distance (lat (snd (station_location x))) (lon (snd (station_location x)))
                   (lat (snd (station_location y))) (lon (snd (station_location y))),
      cost = 5\<rparr>"
  by (cases x; cases y) (simp add: metro_edge_def station_location_def)

lemma connect_stations_edges:
  assumes "locations self = map station_location metro_data" and "\<forall>i \<in> set ix. i < 22"
  shows "\<exists>self'. connect_stations self (map fst metro_data) ix = Inr self'
           \<and> locations self' = locations self \<and> metro_stations self' = metro_stations self
           \<and> (distinct (map fst (graph self)) \<longrightarrow> distinct (map fst (graph self')))
           \<and> all_edges self' = all_edges self \<union> (\<Union>i \<in> set ix. metro_links i)"
  using assms
proof (induction ix arbitrary: self)
  case Nil
  then show ?case by simp
next
  case (Cons i ix)
  let ?sl = "map fst metro_data"
  let ?e = "metro_edge (metro_data ! i) (metro_data ! Suc i)"
  let ?next = "add_edge (add_edge self (?sl ! i) (?sl ! Suc i) ''metro'' 2.5 (distance (?e [])) 5)
                 (?sl ! Suc i) (?sl ! i) ''metro'' 2.5 (distance (?e [])) 5"
  from Cons.prems have i: "i < 22" by simp
  then have nth: "?sl ! i = fst (metro_data ! i)" "?sl ! Suc i = fst (metro_data ! Suc i)"
    by (simp_all add: length_metro_data)
  from i have l1: "map_of (locations self) (?sl ! i) = Some (snd (station_location (metro_data ! i)))"
    and l2: "map_of (locations self) (?sl ! Suc i) = Some (snd (station_location (metro_data ! Suc i)))"
    using station_lookup [of i] station_lookup [of "Suc i"] Cons.prems(1) nth by simp_all
  have step: "connect_stations self ?sl (i # ix) = connect_stations ?next ?sl ix"
    using l1 l2 by (simp add: bnd_def lookup_def Let_def metro_edge_station)
  have loc: "locations ?next = map station_location metro_data"
    using Cons.prems(1) by (simp add: add_edge_fields)
  from Cons.prems(2) have "\<forall>i \<in> set ix. i < 22" by simp
  from Cons.IH [OF loc this] obtain self' where
    r: "connect_stations ?next ?sl ix = Inr self'"
    and f: "locations self' = locations ?next" "metro_stations self' = metro_stations ?next"
    and d: "distinct (map fst (graph ?next)) \<longrightarrow> distinct (map fst (graph self'))"
    and e: "all_edges self' = all_edges ?next \<union> (\<Union>i \<in> set ix. metro_links i)"
    by blast
  have "all_edges ?next = all_edges self \<union> metro_links i"
    by (auto simp: add_edge_edges metro_links_def nth metro_edge_station)
  with e have "all_edges self' = all_edges self \<union> (\<Union>i \<in> set (i # ix). metro_links i)"
    by auto
  moreover have "distinct (map fst (graph self)) \<longrightarrow> distinct (map fst (graph self'))"
    using d by (simp add: add_edge_distinct)
  ultimately show ?case
    using step r f by (simp add: add_edge_fields)
qed

definition station_locations :: "(string \<times> location) list" where
  "station_locations = map station_location metro_data"

definition station_coordinates :: "(string \<times> real \<times> real) list" where
  "station_coordinates = map (\<lambda>(n, la, lo, z). (n, la, lo)) metro_data"

lemma build_metro_network_result:
  "\<exists>self. build_metro_network \<lparr>graph = [], locations = [], metro_stations = []\<rparr> = Inr self
     \<and> locations self = station_locations \<and> metro_stations self = station_coordinates
     \<and> distinct (map fst (graph self))
     \<and> all_edges self = (\<Union>i < 22. metro_links i)"
proof -
  let ?s = "\<lparr>graph = [], locations = map station_location metro_data,
             metro_stations = map (\<lambda>(n, la, lo, z). (n, la, lo)) metro_data\<rparr>"
  have "\<exists>self'. connect_stations ?s (map fst metro_data) [0 ..< 22] = Inr self'
           \<and> locations self' = locations ?s \<and> metro_stations self' = metro_stations ?s
           \<and> (distinct (map fst (graph ?s)) \<longrightarrow> distinct (map fst (graph self')))
           \<and> all_edges self' = all_edges ?s \<union> (\<Union>i \<in> set [0 ..< 22]. metro_links i)"
    by (rule connect_stations_edges) simp_all
  moreover have "all_edges ?s = {}"
    by (simp add: all_edges_def)
  moreover have "set [0 ..< 22] = {..< 22::nat}"
    by auto
  ultimately show ?thesis
    unfolding build_metro_network_def Let_def foldl_add_station
    by (simp add: length_metro_data station_locations_def station_coordinates_def)
qed

subsection \<open>The places\<close>

definition all_locations :: "(string \<times> location) list" where
  "all_locations = map station_location metro_data @ map place_location popular_places"

lemma add_popular_locations_result:
  assumes "locations self = station_locations"
  shows "locations (add_popular_locations self) = all_locations"
    and "metro_stations (add_popular_locations self) = metro_stations self"
    and "graph (add_popular_locations self) = graph self"
proof -
  have g: "graph (foldl add_place a xs) = graph a \<and> metro_stations (foldl add_place a xs) = metro_stations a" for a xs
    by (induction xs arbitrary: a) (auto simp: add_place_def)
  show "metro_stations (add_popular_locations self) = metro_stations self"
    and "graph (add_popular_locations self) = graph self"
    using g by (simp_all add: add_popular_locations_def)
  have l: "locations (foldl add_place a xs)
           = foldl (\<lambda>ls (place, la, lo, ty). AList.update place \<lparr>lat = la, lon = lo, loc_type = ty, zone = ''N/A''\<rparr> ls)
               (locations a) xs" for a xs
    by (induction xs arbitrary: a) (auto simp: add_place_def)
  show "locations (add_popular_locations self) = all_locations"
    unfolding add_popular_locations_def l assms
    by (simp add: station_locations_def all_locations_def metro_data_def popular_places_def
        station_location_def place_location_def)
qed


subsection \<open>The connections\<close>

lemma find_nearest_fields:
  assumes "locations a = locations b" and "metro_stations a = metro_stations b"
  shows "find_nearest_metro_stations a p k = find_nearest_metro_stations b p k"
  using assms by (simp add: find_nearest_metro_stations_def cong: option.case_cong)

lemma grows_if:
  assumes "c \<Longrightarrow> grows Q a b"
  shows "grows Q a (if c then b else a)"
  using assms by (simp add: grows_refl)

lemma connect_to_station_grows:
  assumes "\<And>u e. connector d loc station u e \<Longrightarrow> Q u e"
  shows "grows Q self (connect_to_station loc self (station, d))"
proof -
  let ?s1 = "if d < 1.5
             then add_edge (add_edge self loc station ''walk'' (d * 15) d (d * 5))
                    station loc ''walk'' (d * 15) d (d * 5)
             else self"
  let ?s2 = "if d < 15
             then add_edge (add_edge ?s1 loc station ''auto'' (d * 3) d (20 + d * 12))
                    station loc ''auto'' (d * 3) d (20 + d * 12)
             else ?s1"
  let ?s3 = "if 1.0 < d \<and> d < 10
             then add_edge (add_edge ?s2 loc station ''bus'' (d * 4) d (10 + d * 3))
                    station loc ''bus'' (d * 4) d (10 + d * 3)
             else ?s2"
  have 1: "grows Q self ?s1"
    by (rule grows_if, rule grows_add_both; rule assms) (simp_all add: connector_def)
  have 2: "grows Q ?s1 ?s2"
    by (rule grows_if, rule grows_add_both; rule assms) (simp_all add: connector_def)
  have 3: "grows Q ?s2 ?s3"
    by (rule grows_if, rule grows_add_both; rule assms) (simp_all add: connector_def)
  have "connect_to_station loc self (station, d) = ?s3"
    by (simp add: connect_to_station_def Let_def)
  then show ?thesis
    using grows_trans [OF grows_trans [OF 1 2] 3] by simp
qed

text \<open>The edges between a place and one of its three nearest stations, and between two places.\<close>

definition station_connector :: "optimizer \<Rightarrow> string \<Rightarrow> edge \<Rightarrow> bool" where
  "station_connector self u e =
     (\<exists>p lp s d. (p, lp) \<in> set (locations self) \<and> loc_type lp \<noteq> ''metro_station''
        \<and> (s, d) \<in> set (find_nearest_metro_stations self p 3) \<and> connector d p s u e)"

definition direct_connector :: "optimizer \<Rightarrow> string \<Rightarrow> edge \<Rightarrow> bool" where
  "direct_connector self u e =
     (\<exists>p lp q lq. (p, lp) \<in> set (locations self) \<and> loc_type lp \<noteq> ''metro_station''
        \<and> (q, lq) \<in> set (locations self) \<and> loc_type lq \<noteq> ''metro_station''
        \<and> connector (haversine_distance (lat lp) (lon lp) (lat lq) (lon lq)) p q u e
        \<and> mode e \<noteq> ''bus'')"

lemma station_connector_fields:
  assumes "locations a = locations b" and "metro_stations a = metro_stations b"
  shows "station_connector a = station_connector b"
  using assms find_nearest_fields [OF assms] by (simp add: station_connector_def fun_eq_iff)

lemma connect_locations_to_metro_grows:
  "grows (station_connector self) self (connect_locations_to_metro self)"
  unfolding connect_locations_to_metro_def
proof (rule grows_foldl)
  fix a x
  assume x: "x \<in> set (locations self)" and a: "grows (station_connector self) self a"
  obtain p lp where px: "x = (p, lp)" by (cases x)
  from a have f: "locations a = locations self" "metro_stations a = metro_stations self"
    by (simp_all add: grows_def)
  show "grows (station_connector self) a (connect_location a x)"
  proof (cases "loc_type lp = ''metro_station''")
    case True
    then show ?thesis
      by (simp add: px connect_location_def grows_refl)
  next
    case False
    have "grows (station_connector self) a
            (foldl (connect_to_station p) a (find_nearest_metro_stations a p 3))"
    proof (rule grows_foldl)
      fix b y
      assume y: "y \<in> set (find_nearest_metro_stations a p 3)"
      obtain st d where yy: "y = (st, d)" by (cases y)
      from y have "(st, d) \<in> set (find_nearest_metro_stations self p 3)"
        using find_nearest_fields [OF f] by (simp add: yy)
      then have "\<And>u e. connector d p st u e \<Longrightarrow> station_connector self u e"
        using x False unfolding station_connector_def px by blast
      then show "grows (station_connector self) b (connect_to_station p b y)"
        unfolding yy by (rule connect_to_station_grows)
    qed
    with False show ?thesis
      by (simp add: px connect_location_def)
  qed
qed

lemma connect_pair_grows:
  assumes "\<And>u e. connector (haversine_distance (lat lp) (lon lp) (lat lq) (lon lq)) p q u e
              \<Longrightarrow> mode e \<noteq> ''bus'' \<Longrightarrow> Q u e"
  shows "grows Q self (connect_pair (p, lp) self (q, lq))"
proof -
  let ?d = "haversine_distance (lat lp) (lon lp) (lat lq) (lon lq)"
  let ?s1 = "if ?d < 10
             then add_edge (add_edge self p q ''auto'' (?d * 3) ?d (20 + ?d * 12))
                    q p ''auto'' (?d * 3) ?d (20 + ?d * 12)
             else self"
  let ?s2 = "if ?d < 1.5
             then add_edge (add_edge ?s1 p q ''walk'' (?d * 15) ?d (?d * 5))
                    q p ''walk'' (?d * 15) ?d (?d * 5)
             else ?s1"
  have 1: "grows Q self ?s1"
    by (rule grows_if, rule grows_add_both; rule assms) (simp_all add: connector_def)
  have 2: "grows Q ?s1 ?s2"
    by (rule grows_if, rule grows_add_both; rule assms) (simp_all add: connector_def)
  have "connect_pair (p, lp) self (q, lq) = ?s2"
    by (simp add: connect_pair_def Let_def)
  then show ?thesis
    using grows_trans [OF 1 2] by simp
qed

lemma connect_pairs_grows:
  assumes "\<And>p lp q lq u e. (p, lp) \<in> set xs \<Longrightarrow> (q, lq) \<in> set xs
              \<Longrightarrow> connector (haversine_distance (lat lp) (lon lp) (lat lq) (lon lq)) p q u e
              \<Longrightarrow> mode e \<noteq> ''bus'' \<Longrightarrow> Q u e"
  shows "grows Q self (connect_pairs self xs)"
  using assms
proof (induction xs arbitrary: self)
  case Nil
  then show ?case by (simp add: grows_refl)
next
  case (Cons x xs)
  obtain p lp where px: "x = (p, lp)" by (cases x)
  have a: "grows Q self (foldl (connect_pair x) self xs)"
  proof (rule grows_foldl)
    fix a y
    assume y: "y \<in> set xs"
    obtain q lq where qy: "y = (q, lq)" by (cases y)
    show "grows Q a (connect_pair x a y)"
      unfolding px qy
    proof (rule connect_pair_grows)
      fix u e
      assume "connector (haversine_distance (lat lp) (lon lp) (lat lq) (lon lq)) p q u e"
        and "mode e \<noteq> ''bus''"
      then show "Q u e"
        using Cons.prems(1) [of p lp q lq u e] y by (simp add: px qy)
    qed
  qed
  have b: "grows Q (foldl (connect_pair x) self xs) (connect_pairs (foldl (connect_pair x) self xs) xs)"
  proof (rule Cons.IH)
    fix p lp q lq u e
    assume "(p, lp) \<in> set xs" "(q, lq) \<in> set xs"
      "connector (haversine_distance (lat lp) (lon lp) (lat lq) (lon lq)) p q u e"
      "mode e \<noteq> ''bus''"
    then show "Q u e"
      using Cons.prems(1) [of p lp q lq u e] by simp
  qed
  show ?case
    using grows_trans [OF a b] by simp
qed

lemma add_direct_connections_grows:
  "grows (direct_connector self) self (add_direct_connections self)"
  unfolding add_direct_connections_def
proof (rule connect_pairs_grows)
  fix p lp q lq u e
  let ?xs = "filter (\<lambda>(name, data). loc_type data \<noteq> ''metro_station'') (locations self)"
  assume "(p, lp) \<in> set ?xs" "(q, lq) \<in> set ?xs"
    "connector (haversine_distance (lat lp) (lon lp) (lat lq) (lon lq)) p q u e"
    "mode e \<noteq> ''bus''"
  then show "direct_connector self u e"
    unfolding direct_connector_def by simp blast
qed

subsection \<open>The network of the program\<close>

definition kochi :: optimizer where
  "kochi = (case init of Inr self \<Rightarrow> self | Inl ex \<Rightarrow> \<lparr>graph = [], locations = [], metro_stations = []\<rparr>)"

lemma kochi_built:
  "init = Inr kochi \<and> locations kochi = all_locations \<and> metro_stations kochi = station_coordinates
   \<and> distinct (map fst (graph kochi)) \<and> (\<Union>i < 22. metro_links i) \<subseteq> all_edges kochi
   \<and> (\<forall>u e. (u, e) \<in> all_edges kochi \<longrightarrow>
           (u, e) \<in> (\<Union>i < 22. metro_links i) \<or> station_connector kochi u e \<or> direct_connector kochi u e)"
proof -
  obtain m where m: "build_metro_network \<lparr>graph = [], locations = [], metro_stations = []\<rparr> = Inr m"
    and ml: "locations m = station_locations" and ms: "metro_stations m = station_coordinates"
    and md: "distinct (map fst (graph m))" and me: "all_edges m = (\<Union>i < 22. metro_links i)"
    using build_metro_network_result by blast
  let ?a = "add_popular_locations m"
  let ?b = "connect_locations_to_metro ?a"
  let ?c = "add_direct_connections ?b"
  have k: "init = Inr ?c"
    by (simp add: init_def m bnd_def)
  have kc: "kochi = ?c"
    unfolding kochi_def k by simp
  have al: "locations ?a = all_locations" and as: "metro_stations ?a = station_coordinates"
    and ag: "graph ?a = graph m"
    using add_popular_locations_result [OF ml] ms by simp_all
  have ae: "all_edges ?a = all_edges m"
    by (simp add: all_edges_def ag)
  have gb: "grows (station_connector ?a) ?a ?b"
    by (rule connect_locations_to_metro_grows)
  have gc: "grows (direct_connector ?b) ?b ?c"
    by (rule add_direct_connections_grows)
  note bf = growsD(1,2) [OF gb]
  note cf = growsD(1,2) [OF gc]
  have sc: "station_connector ?a = station_connector ?c"
    by (rule station_connector_fields) (simp_all add: bf cf)
  have dc: "direct_connector ?b = direct_connector ?c"
    by (simp add: direct_connector_def fun_eq_iff cf)
  have 1: "init = Inr kochi"
    using k kc by simp
  have 2: "locations kochi = all_locations"
    by (simp add: kc cf bf al)
  have 3: "metro_stations kochi = station_coordinates"
    by (simp add: kc cf bf as)
  have "distinct (map fst (graph ?a))"
    using md by (simp add: ag)
  then have 4: "distinct (map fst (graph kochi))"
    unfolding kc by (intro growsD(3) [OF gc] growsD(3) [OF gb])
  have 5: "(\<Union>i < 22. metro_links i) \<subseteq> all_edges kochi"
    using growsD(4) [OF gb] growsD(4) [OF gc] me ae unfolding kc by blast
  have 6: "(u, e) \<in> (\<Union>i < 22. metro_links i) \<or> station_connector kochi u e \<or> direct_connector kochi u e"
    if in_k: "(u, e) \<in> all_edges kochi" for u e
  proof (cases "direct_connector kochi u e \<or> station_connector kochi u e")
    case True
    then show ?thesis by blast
  next
    case False
    from in_k have "(u, e) \<in> all_edges ?b \<or> direct_connector ?b u e"
      unfolding kc by (rule growsD(5) [OF gc])
    with False have "(u, e) \<in> all_edges ?b"
      by (simp add: dc kc)
    then have "(u, e) \<in> all_edges ?a \<or> station_connector ?a u e"
      by (rule growsD(5) [OF gb])
    with False have "(u, e) \<in> all_edges ?a"
      by (simp add: sc kc)
    then show ?thesis
      by (simp add: ae me)
  qed
  from 1 2 3 4 5 6 show ?thesis
    by blast
qed

lemma init_kochi: "init = Inr kochi"
  and kochi_locations: "locations kochi = all_locations"
  and kochi_stations: "metro_stations kochi = station_coordinates"
  and kochi_distinct: "distinct (map fst (graph kochi))"
  and kochi_metro: "(\<Union>i < 22. metro_links i) \<subseteq> all_edges kochi"
  using kochi_built by blast+

lemma kochi_edges:
  assumes "(u, e) \<in> all_edges kochi"
  shows "(u, e) \<in> (\<Union>i < 22. metro_links i) \<or> station_connector kochi u e \<or> direct_connector kochi u e"
  using kochi_built assms by blast

lemma all_names_distinct: "distinct (map fst all_locations)"
  by (simp add: all_locations_def metro_data_def popular_places_def station_location_def
      place_location_def)

lemma haversine_symmetric:
  "haversine_distance lat1 lon1 lat2 lon2 = haversine_distance lat2 lon2 lat1 lon1"
proof -
  have "sin (radians (lat2 - lat1) / 2) = - sin (radians (lat1 - lat2) / 2)"
    by (metis diff_divide_distrib divide_minus_left minus_diff_eq mult_minus_left radians_def sin_minus)
  moreover have "sin (radians (lon2 - lon1) / 2) = - sin (radians (lon1 - lon2) / 2)"
    by (metis diff_divide_distrib divide_minus_left minus_diff_eq mult_minus_left radians_def sin_minus)
  ultimately show ?thesis
    by (simp add: haversine_distance_def Let_def mult.commute)
qed

lemma nearest_station:
  assumes "(s, d) \<in> set (find_nearest_metro_stations self p k)"
  shows "\<exists>lp la lo. map_of (locations self) p = Some lp \<and> (s, la, lo) \<in> set (metro_stations self)
           \<and> d = haversine_distance (lat lp) (lon lp) la lo"
proof (cases "map_of (locations self) p")
  case None
  with assms show ?thesis
    by (simp add: find_nearest_metro_stations_def)
next
  case (Some lp)
  with assms have "(s, d) \<in> set (map (\<lambda>(station, la, lo).
                    (station, haversine_distance (lat lp) (lon lp) la lo)) (metro_stations self))"
    by (auto simp: find_nearest_metro_stations_def dest: in_set_takeD)
  with Some show ?thesis
    by auto
qed

lemma station_entry:
  assumes "(s, la, lo) \<in> set station_coordinates"
  shows "\<exists>i < 23. \<exists>z. metro_data ! i = (s, la, lo, z)"
proof -
  from assms obtain z where "(s, la, lo, z) \<in> set metro_data"
    by (auto simp: station_coordinates_def)
  then show ?thesis
    by (metis in_set_conv_nth length_metro_data)
qed

lemma location_lookup:
  "(n, l) \<in> set all_locations \<longleftrightarrow> map_of all_locations n = Some l"
  using all_names_distinct by (metis map_of_SomeD map_of_is_SomeI)

lemma station_in_locations:
  assumes "i < 23"
  shows "station_location (metro_data ! i) \<in> set all_locations"
  using assms by (simp add: all_locations_def length_metro_data)

lemma connector_modes:
  assumes "connector d a b u e"
  shows "mode e \<noteq> ''metro''" and "u = a \<and> destination e = b \<or> u = b \<and> destination e = a"
  using assms by (auto simp: connector_def)

lemma metro_links_mode:
  assumes "(u, e) \<in> metro_links i"
  shows "mode e = ''metro''" and "time e = 2.5" and "cost e = 5"
  using assms by (auto simp: metro_links_def metro_edge_station)

lemma metro_mode_edges:
  assumes "(u, e) \<in> all_edges kochi" and "mode e = ''metro''"
  shows "\<exists>i < 22. (u, e) \<in> metro_links i"
proof -
  from kochi_edges [OF assms(1)] consider "(u, e) \<in> (\<Union>i < 22. metro_links i)"
    | "station_connector kochi u e" | "direct_connector kochi u e"
    by blast
  then show ?thesis
  proof cases
    case 1
    then show ?thesis by blast
  next
    case 2
    then show ?thesis
      using assms(2) connector_modes(1) unfolding station_connector_def by blast
  next
    case 3
    then show ?thesis
      using assms(2) connector_modes(1) unfolding direct_connector_def by blast
  qed
qed

text \<open>
  C7. The constructor returns a network in which every two stations adjacent in the line
  order are joined by a metro edge in each direction, with cost 5, time 2.5 and the haversine
  distance of the two stations as distance, and in which every edge of mode metro is one of
  these: there is none between stations that are not adjacent in the line.
\<close>

theorem metro_line_edges:
  "init = Inr kochi
   \<and> (\<forall>i < 22.
        case metro_data ! i of (n1, la1, lo1, z1) \<Rightarrow> case metro_data ! Suc i of (n2, la2, lo2, z2) \<Rightarrow>
          (n1, \<lparr>destination = n2, mode = ''metro'', time = 2.5,
                distance = haversine_distance la1 lo1 la2 lo2, cost = 5\<rparr>) \<in> all_edges kochi
        \<and> (n2, \<lparr>destination = n1, mode = ''metro'', time = 2.5,
                distance = haversine_distance la2 lo2 la1 lo1, cost = 5\<rparr>) \<in> all_edges kochi)
   \<and> (\<forall>u e. (u, e) \<in> all_edges kochi \<and> mode e = ''metro'' \<longrightarrow>
          (\<exists>i < 22. u = fst (metro_data ! i) \<and> destination e = fst (metro_data ! Suc i)
                   \<or> u = fst (metro_data ! Suc i) \<and> destination e = fst (metro_data ! i)))"
proof (intro conjI allI impI)
  show "init = Inr kochi"
    by (rule init_kochi)
next
  fix i :: nat
  assume i: "i < 22"
  obtain n1 la1 lo1 z1 where a: "metro_data ! i = (n1, la1, lo1, z1)"
    by (cases "metro_data ! i")
  obtain n2 la2 lo2 z2 where b: "metro_data ! Suc i = (n2, la2, lo2, z2)"
    by (cases "metro_data ! Suc i")
  from i have "metro_links i \<subseteq> all_edges kochi"
    using kochi_metro by blast
  then have "(n1, \<lparr>destination = n2, mode = ''metro'', time = 2.5,
                distance = haversine_distance la1 lo1 la2 lo2, cost = 5\<rparr>) \<in> all_edges kochi"
    and "(n2, \<lparr>destination = n1, mode = ''metro'', time = 2.5,
                distance = haversine_distance la1 lo1 la2 lo2, cost = 5\<rparr>) \<in> all_edges kochi"
    by (simp_all add: metro_links_def a b metro_edge_def)
  then show "case metro_data ! i of (n1, la1, lo1, z1) \<Rightarrow> case metro_data ! Suc i of (n2, la2, lo2, z2) \<Rightarrow>
          (n1, \<lparr>destination = n2, mode = ''metro'', time = 2.5,
                distance = haversine_distance la1 lo1 la2 lo2, cost = 5\<rparr>) \<in> all_edges kochi
        \<and> (n2, \<lparr>destination = n1, mode = ''metro'', time = 2.5,
                distance = haversine_distance la2 lo2 la1 lo1, cost = 5\<rparr>) \<in> all_edges kochi"
    using haversine_symmetric [of la2 lo2 la1 lo1] by (simp add: a b)
next
  fix u e
  assume "(u, e) \<in> all_edges kochi \<and> mode e = ''metro''"
  then obtain i where "i < 22" and "(u, e) \<in> metro_links i"
    using metro_mode_edges by blast
  then show "\<exists>i < 22. u = fst (metro_data ! i) \<and> destination e = fst (metro_data ! Suc i)
                   \<or> u = fst (metro_data ! Suc i) \<and> destination e = fst (metro_data ! i)"
    by (cases "metro_data ! i"; cases "metro_data ! Suc i")
      (auto simp: metro_links_def metro_edge_def)
qed

theorem metro_line_edges_witness:
  "init = Inr kochi
   \<and> (''Aluva Metro'', \<lparr>destination = ''Pulinchodu Metro'', mode = ''metro'', time = 2.5,
         distance = haversine_distance 10.1082 76.3520 10.1012 76.3445, cost = 5\<rparr>) \<in> all_edges kochi
   \<and> (''Pulinchodu Metro'', \<lparr>destination = ''Aluva Metro'', mode = ''metro'', time = 2.5,
         distance = haversine_distance 10.1012 76.3445 10.1082 76.3520, cost = 5\<rparr>) \<in> all_edges kochi"
proof -
  note line = metro_line_edges [THEN conjunct2, THEN conjunct1, rule_format, of 0]
  have "metro_data ! 0 = (''Aluva Metro'', 10.1082, 76.3520, ''Zone 3'')"
    and "metro_data ! Suc 0 = (''Pulinchodu Metro'', 10.1012, 76.3445, ''Zone 3'')"
    by (simp_all add: metro_data_def)
  with line show ?thesis
    using metro_line_edges [THEN conjunct1] by simp
qed

end
